theory Spec2Isabelle
  imports Main "HOL-Library.Word"
begin

unbundle bit_operations_syntax

section \<open>JavaScript values used by the runtime\<close>

text \<open>
  Numbers that hold positions, lengths and table entries are integers and are modelled
  as \<open>int\<close>; the elements of a \<^verbatim>\<open>Uint16Array\<close> are 16-bit words. A number that may be \<^verbatim>\<open>NaN\<close> or \<^verbatim>\<open>undefined\<close> (an array read out of range,
  \<^verbatim>\<open>charCodeAt\<close> out of range) is an \<open>int option\<close> with \<open>None\<close> for the non-number;
  every comparison with a non-number is false, as in JavaScript.
  A string is the list of its UTF-16 code units, each a natural number.
\<close>

type_synonym jsstring = "nat list"

text \<open>A \<^verbatim>\<open>Uint16Array\<close>.\<close>

type_synonym uint16array = "16 word list"

text \<open>\<^verbatim>\<open>ToInt32\<close>, applied by the bit operators \<^verbatim>\<open>&\<close>, \<^verbatim>\<open>>>\<close> and \<^verbatim>\<open><<\<close> to their operands.\<close>

definition to_int32 :: "int \<Rightarrow> int" where
  "to_int32 x = signed_take_bit 31 x"

text \<open>An array read \<^verbatim>\<open>xs[i]\<close>: \<^verbatim>\<open>undefined\<close> (here \<open>None\<close>) out of range.\<close>

definition js_index :: "'a list \<Rightarrow> int \<Rightarrow> 'a option" where
  "js_index xs i = (if 0 \<le> i \<and> i < int (length xs) then Some (xs ! nat i) else None)"

section \<open>ParseState (state.ts)\<close>

record ParseState =
  id :: int
  actions :: "int list"
  goto :: "int list"
  recover :: "int list"
  alwaysReduce :: int
  defaultReduce :: int

text \<open>
  \<^verbatim>\<open>lookup(actions, term)\<close>: the loop steps through the array two entries at a time.
  On an array of odd length the last read \<^verbatim>\<open>actions[i + 1]\<close> is \<^verbatim>\<open>undefined\<close>; the
  result of \<^verbatim>\<open>lookup\<close> is then \<^verbatim>\<open>undefined\<close>, here \<open>None\<close>.
\<close>

fun lookup :: "int list \<Rightarrow> int \<Rightarrow> int option" where
  "lookup (t # a # rest) term = (if t = term then Some a else lookup rest term)"
| "lookup [t] term = (if t = term then None else Some 0)"
| "lookup [] term = Some 0"

definition hasAction :: "ParseState \<Rightarrow> int \<Rightarrow> bool" where
  "hasAction st terminal = (lookup (actions st) terminal \<noteq> Some 0)"

definition getGoto :: "ParseState \<Rightarrow> int \<Rightarrow> int option" where
  "getGoto st term = lookup (goto st) term"

definition getRecover :: "ParseState \<Rightarrow> int \<Rightarrow> int option" where
  "getRecover st terminal = lookup (recover st) terminal"

text \<open>
  The loop of \<^verbatim>\<open>anyReduce\<close>. With one entry left, \<^verbatim>\<open>actions[i + 1]\<close> is \<^verbatim>\<open>undefined\<close>,
  the test \<^verbatim>\<open>undefined > 0\<close> is false and the loop ends.
\<close>

fun anyReduce_scan :: "int list \<Rightarrow> int" where
  "anyReduce_scan (t # action # rest) = (if action > 0 then action else anyReduce_scan rest)"
| "anyReduce_scan [t] = 0"
| "anyReduce_scan [] = 0"

definition anyReduce :: "ParseState \<Rightarrow> int" where
  "anyReduce st = (if alwaysReduce st \<ge> 0 then alwaysReduce st else anyReduce_scan (actions st))"

text \<open>
  What the specification says of \<^verbatim>\<open>anyReduce\<close>, in its own words: the array is a list
  of (terminal, action) pairs, and the answer is \<open>alwaysReduce\<close> when that is set,
  else the first positive action, else 0.
\<close>

fun action_pairs :: "int list \<Rightarrow> (int \<times> int) list" where
  "action_pairs (t # a # rest) = (t, a) # action_pairs rest"
| "action_pairs [t] = []"
| "action_pairs [] = []"

definition anyReduce_spec :: "ParseState \<Rightarrow> int" where
  "anyReduce_spec st =
     (if alwaysReduce st \<ge> 0 then alwaysReduce st
      else (case List.find (\<lambda>a. a > 0) (map snd (action_pairs (actions st))) of
              Some a \<Rightarrow> a
            | None \<Rightarrow> 0))"

section \<open>TagMap (tree.ts)\<close>

text \<open>
  The field \<^verbatim>\<open>content: (T | null)[]\<close>: \<open>None\<close> is \<^verbatim>\<open>null\<close>. The result of a read
  distinguishes \<^verbatim>\<open>undefined\<close> (no element at that index) from \<^verbatim>\<open>null\<close>.
\<close>

datatype 'a jsval = Undefined | Null | Val 'a

record 'a TagMap =
  content :: "'a option list"

text \<open>
  The constructor. \<open>values\<close> is the object \<^verbatim>\<open>{[name: string]: T}\<close>, a map whose
  domain is the object's own properties. \<^verbatim>\<open>JSON.parse\<close> is the host's function and is a
  parameter; it throws on a malformed literal (\<open>None\<close>), and the constructor throws with it.
\<close>

definition TagMap_found ::
  "(string \<Rightarrow> string option) \<Rightarrow> (string \<rightharpoonup> 'a) \<Rightarrow> string \<Rightarrow> 'a option option" where
  "TagMap_found JSON_parse values tag =
     (if values tag \<noteq> None then Some (values tag)
      else if tag \<noteq> [] \<and> hd tag = CHR 0x22 then
        (case JSON_parse tag of
           None \<Rightarrow> None
         | Some name \<Rightarrow> Some (if values name \<noteq> None then values name else None))
      else Some None)"

fun TagMap_fill ::
  "(string \<Rightarrow> string option) \<Rightarrow> (string \<rightharpoonup> 'a) \<Rightarrow> string list \<Rightarrow> 'a option list
     \<Rightarrow> 'a option list option" where
  "TagMap_fill JSON_parse values [] acc = Some acc"
| "TagMap_fill JSON_parse values (tag # tags) acc =
     (case TagMap_found JSON_parse values tag of
        None \<Rightarrow> None
      | Some found \<Rightarrow> TagMap_fill JSON_parse values tags (acc @ [found]))"

definition TagMap_new ::
  "(string \<Rightarrow> string option) \<Rightarrow> string list \<Rightarrow> (string \<rightharpoonup> 'a) \<Rightarrow> 'a TagMap option" where
  "TagMap_new JSON_parse tags values =
     map_option (\<lambda>c. \<lparr>content = c\<rparr>) (TagMap_fill JSON_parse values tags [])"

text \<open>\<^verbatim>\<open>get(tag) { return tag & 1 ? this.content[tag >> 1] : null }\<close>\<close>

definition TagMap_get :: "'a TagMap \<Rightarrow> int \<Rightarrow> 'a jsval" where
  "TagMap_get m tag =
     (if to_int32 tag AND 1 \<noteq> 0 then
        (case js_index (content m) (drop_bit 1 (to_int32 tag)) of
           None \<Rightarrow> Undefined
         | Some None \<Rightarrow> Null
         | Some (Some v) \<Rightarrow> Val v)
      else Null)"

text \<open>\<^verbatim>\<open>static empty = new TagMap<any>({tags: []} as any, {})\<close>\<close>

definition TagMap_empty :: "'a TagMap" where
  "TagMap_empty = \<lparr>content = []\<rparr>"

section \<open>Tree, Node and TreeBuffer (tree.ts)\<close>

record ChangedRange =
  fromA :: int
  toA :: int
  fromB :: int
  toB :: int

text \<open>
  The element type of \<^verbatim>\<open>children: (Node | TreeBuffer)[]\<close>. A \<^verbatim>\<open>Node\<close> carries its tag, its
  explicit \<^verbatim>\<open>_length\<close>, and the parallel arrays \<^verbatim>\<open>children\<close> and \<^verbatim>\<open>positions\<close>; a
  \<^verbatim>\<open>TreeBuffer\<close> carries a \<^verbatim>\<open>Uint16Array\<close>. Neither class has a look-ahead field.
\<close>

datatype subtree =
    Node int int "subtree list" "int list"
  | TreeBuffer uint16array

text \<open>
  An instance of class \<^verbatim>\<open>Tree\<close>: a plain (headerless) tree, or a \<^verbatim>\<open>Node\<close>, which extends
  \<^verbatim>\<open>Tree\<close> and inherits \<^verbatim>\<open>unchanged\<close> and \<^verbatim>\<open>resolve\<close> from it.
\<close>

datatype tree =
    Tree "subtree list" "int list"
  | NodeTree int int "subtree list" "int list"

fun as_tree :: "subtree \<Rightarrow> tree option" where
  "as_tree (Node tag len cs ps) = Some (NodeTree tag len cs ps)"
| "as_tree (TreeBuffer b) = None"

fun tree_children :: "tree \<Rightarrow> subtree list" where
  "tree_children (Tree cs ps) = cs"
| "tree_children (NodeTree tag len cs ps) = cs"

fun tree_positions :: "tree \<Rightarrow> int list" where
  "tree_positions (Tree cs ps) = ps"
| "tree_positions (NodeTree tag len cs ps) = ps"

text \<open>
  The \<^verbatim>\<open>length\<close> getters. \<^verbatim>\<open>TreeBuffer.length\<close> is \<^verbatim>\<open>buffer[buffer.length - 2]\<close>,
  \<^verbatim>\<open>undefined\<close> on a buffer of fewer than two elements. The getter of a plain tree adds
  the last position and the last child's length; a missing position or an undefined
  length makes the sum \<^verbatim>\<open>NaN\<close>.
\<close>

fun subtree_length :: "subtree \<Rightarrow> int option" where
  "subtree_length (Node tag len cs ps) = Some len"
| "subtree_length (TreeBuffer b) = map_option uint (js_index b (int (length b) - 2))"

definition Tree_length :: "subtree list \<Rightarrow> int list \<Rightarrow> int option" where
  "Tree_length cs ps =
     (let last = int (length cs) - 1
      in if last < 0 then Some 0
         else (case (js_index ps last, subtree_length (cs ! nat last)) of
                 (Some p, Some l) \<Rightarrow> Some (p + l)
               | _ \<Rightarrow> None))"

fun tree_length :: "tree \<Rightarrow> int option" where
  "tree_length (Tree cs ps) = Tree_length cs ps"
| "tree_length (NodeTree tag len cs ps) = Some len"

text \<open>
  \<^verbatim>\<open>partial(start, end, offset, children, positions)\<close>. The two output arrays are
  threaded through as a pair and returned. \<open>Tree_partial\<close> is the method of the base
  class, run over the receiver's own arrays; \<open>subtree_partial\<close> is the dynamic dispatch
  \<^verbatim>\<open>child.partial(...)\<close> to \<^verbatim>\<open>Node.partial\<close> or \<^verbatim>\<open>TreeBuffer.partial\<close>.
  A child whose position is missing has \<^verbatim>\<open>from = undefined\<close>: the test
  \<^verbatim>\<open>from >= end\<close> is false, \<^verbatim>\<open>to\<close> is \<^verbatim>\<open>NaN\<close>, the test \<^verbatim>\<open>to > start\<close> is false, and
  the loop goes on; so do all later children. The same holds for an undefined length.
\<close>

type_synonym reused = "subtree list \<times> int list"

fun Tree_partial :: "subtree list \<Rightarrow> int list \<Rightarrow> int \<Rightarrow> int \<Rightarrow> int \<Rightarrow> reused \<Rightarrow> reused"
  and subtree_partial :: "subtree \<Rightarrow> int \<Rightarrow> int \<Rightarrow> int \<Rightarrow> reused \<Rightarrow> reused" where
  "Tree_partial [] ps start end' offset out = out"
| "Tree_partial (child # cs) [] start end' offset out = out"
| "Tree_partial (child # cs) (from' # ps) start end' offset out =
     (if from' \<ge> end' then out
      else Tree_partial cs ps start end' offset
             (case subtree_length child of
                None \<Rightarrow> out
              | Some len \<Rightarrow>
                  if from' + len > start
                  then subtree_partial child (start - from') (end' - from') (offset + from') out
                  else out))"
| "subtree_partial (Node tag len cs ps) start end' offset out =
     (if start \<le> 0 \<and> end' \<ge> len then (fst out @ [Node tag len cs ps], snd out @ [offset])
      else Tree_partial cs ps start end' offset out)"
| "subtree_partial (TreeBuffer b) start end' offset out =
     (case subtree_length (TreeBuffer b) of
        None \<Rightarrow> out
      | Some len \<Rightarrow>
          if start \<le> 0 \<and> end' \<ge> len then (fst out @ [TreeBuffer b], snd out @ [offset])
          else out)"

text \<open>\<^verbatim>\<open>this.partial(...)\<close> on an instance of \<^verbatim>\<open>Tree\<close>.\<close>

fun tree_partial :: "tree \<Rightarrow> int \<Rightarrow> int \<Rightarrow> int \<Rightarrow> reused \<Rightarrow> reused" where
  "tree_partial (Tree cs ps) start end' offset out = Tree_partial cs ps start end' offset out"
| "tree_partial (NodeTree tag len cs ps) start end' offset out =
     subtree_partial (Node tag len cs ps) start end' offset out"

text \<open>
  The loop of \<^verbatim>\<open>Tree.unchanged\<close>, from index \<open>i\<close> on: the remaining changes, \<open>pos\<close> and
  \<open>off\<close>. When the changes are used up, \<^verbatim>\<open>nextPos = this.length\<close>; the test
  \<^verbatim>\<open>nextPos > pos\<close> is false when that is \<^verbatim>\<open>NaN\<close>.
\<close>

fun unchanged_loop :: "tree \<Rightarrow> ChangedRange list \<Rightarrow> int \<Rightarrow> int \<Rightarrow> reused \<Rightarrow> reused" where
  "unchanged_loop t [] pos off out =
     (case tree_length t of
        None \<Rightarrow> out
      | Some nextPos \<Rightarrow> if nextPos > pos then tree_partial t pos (nextPos - 1) off out else out)"
| "unchanged_loop t (next' # rest) pos off out =
     (let nextPos = fromA next';
          out' = (if nextPos > pos then tree_partial t pos (nextPos - 1) off out else out)
      in unchanged_loop t rest (toA next')
           (off + ((toB next' - fromB next') - (toA next' - fromA next'))) out')"

definition Tree_unchanged :: "tree \<Rightarrow> ChangedRange list \<Rightarrow> tree" where
  "Tree_unchanged t changes =
     (if length changes = 0 then t
      else (case unchanged_loop t changes 0 0 ([], []) of (children, positions) \<Rightarrow>
              Tree children positions))"

text \<open>\<^verbatim>\<open>static empty = new Tree([], [])\<close>, and \<^verbatim>\<open>TreeBuffer.unchanged\<close>.\<close>

definition Tree_empty :: tree where
  "Tree_empty = Tree [] []"

definition TreeBuffer_unchanged :: "uint16array \<Rightarrow> ChangedRange list \<Rightarrow> tree + uint16array" where
  "TreeBuffer_unchanged b changes = (if length changes \<noteq> 0 then Inl Tree_empty else Inr b)"

subsection \<open>Contexts\<close>

text \<open>
  \<^verbatim>\<open>TreeContext(tree, start, parent)\<close> and
  \<^verbatim>\<open>BufferContext(buffer, bufferStart, index, parent)\<close>; \<open>None\<close> is the \<^verbatim>\<open>null\<close> parent.
\<close>

datatype Context =
    TreeContext tree int "Context option"
  | BufferContext uint16array int int "Context option"

fun parent :: "Context \<Rightarrow> Context option" where
  "parent (TreeContext t start p) = p"
| "parent (BufferContext b bufferStart index p) = p"

text \<open>The getters \<^verbatim>\<open>type\<close>, \<^verbatim>\<open>start\<close> and \<^verbatim>\<open>end\<close>; \<open>None\<close> is \<^verbatim>\<open>undefined\<close> or \<^verbatim>\<open>NaN\<close>.\<close>

fun ctx_type :: "Context \<Rightarrow> int option" where
  "ctx_type (TreeContext (Tree cs ps) start p) = Some (- 1)"
| "ctx_type (TreeContext (NodeTree tag len cs ps) start p) = Some tag"
| "ctx_type (BufferContext b bufferStart index p) = map_option uint (js_index b index)"

fun ctx_start :: "Context \<Rightarrow> int option" where
  "ctx_start (TreeContext t start p) = Some start"
| "ctx_start (BufferContext b bufferStart index p) = map_option uint (js_index b (index + 1))"

fun ctx_end :: "Context \<Rightarrow> int option" where
  "ctx_end (TreeContext t start p) = map_option (\<lambda>l. start + l) (tree_length t)"
| "ctx_end (BufferContext b bufferStart index p) = map_option uint (js_index b (index + 2))"

text \<open>\<^verbatim>\<open>x << 2\<close> on an element of a \<^verbatim>\<open>Uint16Array\<close>; \<^verbatim>\<open>undefined << 2\<close> is 0.\<close>

definition shl2 :: "16 word option \<Rightarrow> int" where
  "shl2 x = (case x of None \<Rightarrow> 0 | Some c \<Rightarrow> to_int32 (push_bit 2 (uint c)))"

lemma shl2_Some: "shl2 (Some c) = 4 * uint c"
proof -
  have "uint c < 2 ^ 16"
    using uint_bounded [of c] by simp
  then have "4 * uint c < 2 ^ 31"
    by simp
  moreover have "(0::int) \<le> 4 * uint c"
    by simp
  then have "- (2 ^ 31) \<le> 4 * uint c"
    by (rule order_trans [rotated]) simp
  ultimately have b: "- (2 ^ 31) \<le> 4 * uint c" "4 * uint c < 2 ^ 31"
    by blast+
  have "signed_take_bit 31 (4 * uint c) = 4 * uint c"
    using b by (rule signed_take_bit_int_eq_self)
  then show ?thesis
    by (simp add: shl2_def to_int32_def push_bit_eq_mult mult.commute)
qed

lemma shl2_nonneg: "0 \<le> shl2 x"
proof (cases x)
  case None
  then show ?thesis by (simp add: shl2_def)
next
  case (Some c)
  then show ?thesis by (simp add: shl2_Some)
qed

definition endIndex :: "uint16array \<Rightarrow> int \<Rightarrow> int" where
  "endIndex b index = index + 4 + shl2 (js_index b (index + 3))"

text \<open>Comparisons of a number with a possibly undefined one.\<close>

definition opt_ge :: "int option \<Rightarrow> int \<Rightarrow> bool" where
  "opt_ge a b = (case a of None \<Rightarrow> False | Some x \<Rightarrow> x \<ge> b)"

definition opt_gt :: "int option \<Rightarrow> int \<Rightarrow> bool" where
  "opt_gt a b = (case a of None \<Rightarrow> False | Some x \<Rightarrow> x > b)"

definition opt_le :: "int option \<Rightarrow> int \<Rightarrow> bool" where
  "opt_le a b = (case a of None \<Rightarrow> False | Some x \<Rightarrow> x \<le> b)"

definition opt_lt :: "int option \<Rightarrow> int \<Rightarrow> bool" where
  "opt_lt a b = (case a of None \<Rightarrow> False | Some x \<Rightarrow> x < b)"

text \<open>
  \<^verbatim>\<open>BufferContext.resolveIndex(pos, buffer, start, from, to)\<close>. The loop variable is
  stepped twice in a round that neither breaks nor returns: by
  \<^verbatim>\<open>i += 4 + (buf[i + 3] << 2)\<close> in the body and by \<^verbatim>\<open>i++\<close> in the loop header.
\<close>

function resolveIndex :: "int \<Rightarrow> uint16array \<Rightarrow> int \<Rightarrow> int \<Rightarrow> int \<Rightarrow> int" where
  "resolveIndex pos buf start i to' =
     (if i < to' then
        (let start1 = map_option (\<lambda>x. uint x + start) (js_index buf (i + 1))
         in if opt_ge start1 pos then - 1
            else (let end1 = map_option (\<lambda>x. uint x + start) (js_index buf (i + 2))
                  in if opt_gt end1 pos then i
                     else resolveIndex pos buf start
                            (i + (4 + shl2 (js_index buf (i + 3))) + 1) to'))
      else - 1)"
  by pat_completeness auto

termination
proof (relation "measure (\<lambda>(pos, buf, start, i, to'). nat (to' - i))", goal_cases)
  case 1
  show ?case by simp
next
  case (2 pos buf start i to' start1 end1)
  have "0 \<le> shl2 (js_index buf (i + 3))"
    by (rule shl2_nonneg)
  with 2 show ?case by simp
qed


declare resolveIndex.simps [simp del]

text \<open>
  \<^verbatim>\<open>resolve(pos)\<close> of the two context classes; \<^verbatim>\<open>parent.resolve(pos)\<close> dispatches on the
  class of the parent. \<open>resolve_loop\<close> is the loop of \<^verbatim>\<open>TreeContext.resolve\<close> over the
  children not yet visited: \<open>this\<close>, \<^verbatim>\<open>this.start\<close>, the rest of \<^verbatim>\<open>children\<close> and of
  \<^verbatim>\<open>positions\<close>. A child without a position has \<^verbatim>\<open>start = NaN\<close>: no test succeeds for
  it or for any later child, and the loop runs out.
\<close>

definition outside :: "Context \<Rightarrow> int \<Rightarrow> bool" where
  "outside c pos = (opt_ge (ctx_start c) pos \<or> opt_le (ctx_end c) pos)"

fun depth :: "Context \<Rightarrow> nat" where
  "depth (TreeContext t start None) = 0"
| "depth (TreeContext t start (Some p)) = Suc (depth p)"
| "depth (BufferContext b bufferStart index None) = 0"
| "depth (BufferContext b bufferStart index (Some p)) = Suc (depth p)"

fun weight :: "Context \<Rightarrow> nat" where
  "weight (TreeContext t start p) = Suc (size_list size (tree_children t))"
| "weight (BufferContext b bufferStart index p) = 0"

function (sequential) resolve :: "Context \<Rightarrow> int \<Rightarrow> Context"
  and resolve_loop :: "Context \<Rightarrow> int \<Rightarrow> subtree list \<Rightarrow> int list \<Rightarrow> int \<Rightarrow> Context" where
  "resolve (TreeContext t start p) pos =
     (if pos \<le> start \<or> opt_le (ctx_end (TreeContext t start p)) pos then
        (case p of Some par \<Rightarrow> resolve par pos | None \<Rightarrow> TreeContext t start p)
      else resolve_loop (TreeContext t start p) start (tree_children t) (tree_positions t) pos)"
| "resolve (BufferContext b bufferStart index p) pos =
     (if opt_ge (ctx_start (BufferContext b bufferStart index p)) pos
         \<or> opt_le (ctx_end (BufferContext b bufferStart index p)) pos then
        (case p of Some par \<Rightarrow> resolve par pos | None \<Rightarrow> BufferContext b bufferStart index p)
      else (let found = resolveIndex pos b bufferStart (index + 4) (endIndex b index)
            in if found < 0 then BufferContext b bufferStart index p
               else BufferContext b bufferStart found (Some (BufferContext b bufferStart index p))))"
| "resolve_loop this this_start [] ps pos = this"
| "resolve_loop this this_start (child # cs) [] pos = this"
| "resolve_loop this this_start (Node tag len c q # cs) (p # ps) pos =
     (let start = p + this_start
      in if start \<ge> pos then this
         else if start + len > pos then resolve (TreeContext (NodeTree tag len c q) start (Some this)) pos
         else resolve_loop this this_start cs ps pos)"
| "resolve_loop this this_start (TreeBuffer b # cs) (p # ps) pos =
     (let start = p + this_start
      in if start \<ge> pos then this
         else if opt_gt (map_option (\<lambda>l. start + l) (subtree_length (TreeBuffer b))) pos then
           (let found = resolveIndex pos b start 0 (int (length b))
            in if found > - 1 then BufferContext b start found (Some this)
               else resolve_loop this this_start cs ps pos)
         else resolve_loop this this_start cs ps pos)"
  by pat_completeness auto

termination
proof (relation "inv_image (less_than <*lex*> less_than)
    (\<lambda>x. case x of
       Inl (c, pos) \<Rightarrow> if outside c pos then (1::nat, depth c) else (0, weight c)
     | Inr (this, this_start, cs, ps, pos) \<Rightarrow> (0, size_list size cs))", goal_cases)
  case 1
  show ?case by (intro wf_inv_image wf_lex_prod wf_less_than)
next
  case (2 t start p pos par)
  then show ?case
    by (auto simp: outside_def opt_ge_def opt_le_def split: option.splits)
next
  case (3 t start p pos)
  then show ?case
    by (auto simp: outside_def opt_ge_def opt_le_def split: option.splits)
next
  case (4 b bufferStart index p pos par)
  then show ?case
    by (auto simp: outside_def split: option.splits)
next
  case (5 this this_start tag len c q cs p ps pos start)
  then show ?case
    by (auto simp: outside_def opt_ge_def opt_le_def)
next
  case (6 this this_start tag len c q cs p ps pos start)
  then show ?case by simp
next
  case (7 this this_start b cs p ps pos start found)
  then show ?case by simp
next
  case (8 this this_start b cs p ps pos start)
  then show ?case by simp
qed


text \<open>\<^verbatim>\<open>Tree.resolve(pos)\<close>: \<^verbatim>\<open>new TreeContext(this, 0, null).resolve(pos)\<close>.\<close>

definition Tree_resolve :: "tree \<Rightarrow> int \<Rightarrow> Context" where
  "Tree_resolve t pos = resolve (TreeContext t 0 None) pos"

subsection \<open>Occurrences of subtrees\<close>

text \<open>
  Every subtree below a pair of parallel arrays, with the position at which it starts
  when the arrays' owner starts at \<open>base\<close>. Children without a position are left out:
  no method of the tree reaches them.
\<close>

fun all_subtrees :: "subtree list \<Rightarrow> int list \<Rightarrow> int \<Rightarrow> (subtree \<times> int) list"
  and sub_subtrees :: "subtree \<Rightarrow> int \<Rightarrow> (subtree \<times> int) list" where
  "all_subtrees [] ps base = []"
| "all_subtrees (child # cs) [] base = []"
| "all_subtrees (child # cs) (p # ps) base = sub_subtrees child (base + p) @ all_subtrees cs ps base"
| "sub_subtrees (Node tag len cs ps) a = (Node tag len cs ps, a) # all_subtrees cs ps a"
| "sub_subtrees (TreeBuffer b) a = [(TreeBuffer b, a)]"

fun tree_subtrees :: "tree \<Rightarrow> (subtree \<times> int) list" where
  "tree_subtrees (Tree cs ps) = all_subtrees cs ps 0"
| "tree_subtrees (NodeTree tag len cs ps) = sub_subtrees (Node tag len cs ps) 0"

text \<open>
  The change list as the specification requires it: each range is well formed, and the
  ranges are sorted and do not overlap, in pre-edit coordinates.
\<close>

definition sorted_changes :: "ChangedRange list \<Rightarrow> bool" where
  "sorted_changes changes =
     ((\<forall>ch \<in> set changes. fromA ch \<le> toA ch) \<and> sorted_wrt (\<lambda>x y. toA x \<le> fromA y) changes)"

text \<open>The net growth of the text caused by one change.\<close>

definition delta :: "ChangedRange \<Rightarrow> int" where
  "delta ch = (toB ch - fromB ch) - (toA ch - fromA ch)"

text \<open>
  The rule of the specification (section 4.7), in its own words: a subtree starting at
  \<open>start\<close> with length \<open>len\<close> and a stored look-ahead \<open>la\<close> is reusable only if its range
  lies within an unchanged span and \<open>start + la\<close> is still within it.
\<close>

definition within_unchanged :: "ChangedRange list \<Rightarrow> int \<Rightarrow> int \<Rightarrow> bool" where
  "within_unchanged changes a b = (\<forall>ch \<in> set changes. b \<le> fromA ch \<or> toA ch \<le> a)"

definition spec_reusable :: "ChangedRange list \<Rightarrow> int \<Rightarrow> int \<Rightarrow> int \<Rightarrow> bool" where
  "spec_reusable changes start len la =
     (within_unchanged changes start (start + len) \<and> within_unchanged changes start (start + la))"

text \<open>
  The pairs (subtree, new position) held by the two output arrays of \<^verbatim>\<open>partial\<close>.
\<close>

definition zipped :: "reused \<Rightarrow> (subtree \<times> int) set" where
  "zipped out = set (zip (fst out) (snd out))"

definition fits :: "(subtree \<times> int) list \<Rightarrow> int \<Rightarrow> int \<Rightarrow> int \<Rightarrow> subtree \<times> int \<Rightarrow> bool" where
  "fits occ lo hi shift x =
     (\<exists>a l. (fst x, a) \<in> set occ \<and> subtree_length (fst x) = Some l \<and> snd x = a + shift
            \<and> lo \<le> a \<and> a + l \<le> hi)"


text \<open>
  What \<^verbatim>\<open>partial\<close> goes by: a retained subtree \<open>c\<close>, put at the new position \<open>q\<close>, occurs in
  the prior tree at some pre-edit position \<open>a\<close>; with \<open>l\<close> the value of its \<^verbatim>\<open>length\<close>
  getter, the changes split into those that end at or before \<open>a\<close> and those that begin
  strictly beyond \<open>a + l\<close>; and \<open>q\<close> is \<open>a\<close> moved by the net growth of the former.
\<close>

definition reuse_by_length :: "tree \<Rightarrow> ChangedRange list \<Rightarrow> subtree \<Rightarrow> int \<Rightarrow> bool" where
  "reuse_by_length t changes c q =
     (\<exists>a l before after.
        (c, a) \<in> set (tree_subtrees t) \<and> subtree_length c = Some l \<and>
        changes = before @ after \<and>
        (\<forall>ch \<in> set before. toA ch \<le> a) \<and>
        (\<forall>ch \<in> set after. a + l < fromA ch) \<and>
        q = a + sum_list (map delta before))"

text \<open>
  The range of the nodes that a subtree holds, which is what the specification speaks of.
  A \<^verbatim>\<open>Node\<close> spans its length. A \<^verbatim>\<open>TreeBuffer\<close> holds the quads
  \<open>(type, start, end, childCount)\<close> of its nodes, parents before children, with \<open>start\<close> and
  \<open>end\<close> relative to the buffer; the nodes reach as far as the largest \<open>end\<close> of a quad.
  The \<^verbatim>\<open>length\<close> getter of a buffer reports the \<open>end\<close> of the last quad, which is smaller
  when the last quad is a child that ends before its parent; \<open>length_covers\<close> says that
  the getter reports the whole range.
\<close>

fun quad_ends :: "uint16array \<Rightarrow> int list" where
  "quad_ends (t # s # e # c # rest) = uint e # quad_ends rest"
| "quad_ends b = []"

definition buffer_extent :: "uint16array \<Rightarrow> int" where
  "buffer_extent b = fold max (quad_ends b) 0"

fun subtree_extent :: "subtree \<Rightarrow> int" where
  "subtree_extent (Node tag len cs ps) = len"
| "subtree_extent (TreeBuffer b) = buffer_extent b"

fun length_covers :: "subtree \<Rightarrow> bool" where
  "length_covers (Node tag len cs ps) = True"
| "length_covers (TreeBuffer b) = (subtree_length (TreeBuffer b) = Some (buffer_extent b))"

text \<open>
  What makes the reuse of a subtree \<open>c\<close>, put at the new position \<open>q\<close>, sound with respect
  to the change list: \<open>c\<close> occurs in the prior tree at some pre-edit position \<open>a\<close>; the
  changes split into those that end at or before \<open>a\<close> and those that begin strictly
  beyond the end of the range of the nodes \<open>c\<close> holds; and \<open>q\<close> is \<open>a\<close> moved by the net
  growth of the former.
\<close>

definition reuse_sound :: "tree \<Rightarrow> ChangedRange list \<Rightarrow> subtree \<Rightarrow> int \<Rightarrow> bool" where
  "reuse_sound t changes c q =
     (\<exists>a before after.
        (c, a) \<in> set (tree_subtrees t) \<and>
        changes = before @ after \<and>
        (\<forall>ch \<in> set before. toA ch \<le> a) \<and>
        (\<forall>ch \<in> set after. a + subtree_extent c < fromA ch) \<and>
        q = a + sum_list (map delta before))"

section \<open>InputStream (token.ts)\<close>

record CachedToken =
  tok_start :: int
  tok_value :: int
  tok_end :: int
  extended :: int
  lookAhead :: int
  mask :: int
  tok_context :: int

text \<open>\<^verbatim>\<open>new CachedToken\<close>, the initial contents of the module-level \<^verbatim>\<open>nullToken\<close>.\<close>

definition new_CachedToken :: CachedToken where
  "new_CachedToken =
     \<lparr>tok_start = - 1, tok_value = - 1, tok_end = - 1, extended = - 1,
      lookAhead = 0, mask = 0, tok_context = 0\<rparr>"

record InputGap =
  gap_from :: int
  gap_to :: int

text \<open>
  Modelled from the spec: the interface \<^verbatim>\<open>Input\<close> is imported from the tree library and
  is not part of these sources. Section 6 of the specification gives it as
  \<^verbatim>\<open>chunk(from)\<close>, which returns a non-empty substring starting at \<open>from\<close>, and
  \<^verbatim>\<open>read(from, to)\<close>. An input is a document together with the length of the chunk it
  chooses to hand out at each position (one more than \<open>chunkLen\<close>, so that a chunk is
  empty only at or beyond the end of the document).
\<close>

record Input =
  doc :: jsstring
  chunkLen :: "int \<Rightarrow> nat"

definition Input_chunk :: "Input \<Rightarrow> int \<Rightarrow> jsstring" where
  "Input_chunk inp from' = take (Suc (chunkLen inp from')) (drop (nat from') (doc inp))"

definition Input_read :: "Input \<Rightarrow> int \<Rightarrow> int \<Rightarrow> jsstring" where
  "Input_read inp from' to' = take (nat to' - nat from') (drop (nat from') (doc inp))"

text \<open>
  \<^verbatim>\<open>String.prototype.slice(begin, end)\<close> with its treatment of negative and overlong
  indices, \<^verbatim>\<open>slice(begin)\<close>, and \<^verbatim>\<open>charCodeAt(i)\<close>, which is \<^verbatim>\<open>NaN\<close> out of range.
\<close>

definition js_slice :: "'a list \<Rightarrow> int \<Rightarrow> int \<Rightarrow> 'a list" where
  "js_slice s b e =
     (let len = int (length s);
          k = (if b < 0 then max (len + b) 0 else min b len);
          final = (if e < 0 then max (len + e) 0 else min e len)
      in take (nat (final - k)) (drop (nat k) s))"

definition js_slice_from :: "'a list \<Rightarrow> int \<Rightarrow> 'a list" where
  "js_slice_from s b = js_slice s b (int (length s))"

definition charCodeAt :: "jsstring \<Rightarrow> int \<Rightarrow> int option" where
  "charCodeAt s i = map_option int (js_index s i)"

text \<open>
  The stream. The fields \<open>nxt\<close> and \<open>end_pos\<close> are \<^verbatim>\<open>next\<close> and \<^verbatim>\<open>end\<close> of the source.
  The field \<^verbatim>\<open>token\<close> is a reference: \<open>None\<close> says that it refers to the module-level
  object \<^verbatim>\<open>nullToken\<close>, \<open>Some t\<close> is a token object handed in by \<^verbatim>\<open>reset\<close>, with its
  current contents. \<open>gaps\<close> is \<^verbatim>\<open>null\<close> (\<open>None\<close>) or a non-empty array.

  \<^verbatim>\<open>nullToken\<close> is one object of the module, shared by every stream that \<^verbatim>\<open>reset\<close> has not
  bound to a token of its own. A value of this record is a state of the program as one
  stream sees it: the fields of the stream together with the contents of \<^verbatim>\<open>nullToken\<close> at
  that moment, in the field \<open>nullToken\<close>. The operations of a stream read and write that
  field as the methods read and write the shared object. A write through one stream
  reaches another stream of the program only when the contents are handed on, which
  \<open>share_nullToken\<close> does; the statements below that speak of two streams hold for every
  contents of \<^verbatim>\<open>nullToken\<close> in either, and so for the shared one.
\<close>

record InputStream =
  chunk :: jsstring
  chunkOff :: int
  chunkPos :: int
  chunk2 :: jsstring
  chunk2Pos :: int
  nxt :: "int option"
  gaps :: "InputGap list option"
  token :: "CachedToken option"
  nullToken :: CachedToken
  pos :: int
  input :: Input
  start :: int
  end_pos :: int

text \<open>
  \<^verbatim>\<open>this.token\<close> dereferenced, an assignment to a field of \<^verbatim>\<open>this.token\<close>, and the state
  of a second stream \<open>t\<close> of the program once the calls on the stream \<open>s\<close> have been made.
\<close>

definition the_token :: "InputStream \<Rightarrow> CachedToken" where
  "the_token s = (case token s of None \<Rightarrow> nullToken s | Some t \<Rightarrow> t)"

definition upd_token :: "(CachedToken \<Rightarrow> CachedToken) \<Rightarrow> InputStream \<Rightarrow> InputStream" where
  "upd_token f s =
     (case token s of
        None \<Rightarrow> s\<lparr>nullToken := f (nullToken s)\<rparr>
      | Some t \<Rightarrow> s\<lparr>token := Some (f t)\<rparr>)"

definition share_nullToken :: "InputStream \<Rightarrow> InputStream \<Rightarrow> InputStream" where
  "share_nullToken s t = t\<lparr>nullToken := nullToken s\<rparr>"

text \<open>\<^verbatim>\<open>if (p > this.token.lookAhead) this.token.lookAhead = p\<close>\<close>

definition note_lookAhead :: "int \<Rightarrow> InputStream \<Rightarrow> InputStream" where
  "note_lookAhead p s =
     (if p > lookAhead (the_token s) then upd_token (\<lambda>t. t\<lparr>lookAhead := p\<rparr>) s else s)"

text \<open>
  \<^verbatim>\<open>resolvePos(pos, offset)\<close>. The backward loop runs over the gaps from the last to the
  first, the forward loop from the first to the last; each returns the adjusted offset.
\<close>

fun resolve_backward :: "InputGap list \<Rightarrow> int \<Rightarrow> int \<Rightarrow> int" where
  "resolve_backward [] p offset = offset"
| "resolve_backward (gap # rest) p offset =
     (if gap_to gap \<le> p - offset then offset
      else resolve_backward rest p
             (if gap_to gap \<le> p then offset - (gap_to gap - gap_from gap) else offset))"

fun resolve_forward :: "InputGap list \<Rightarrow> int \<Rightarrow> int \<Rightarrow> int" where
  "resolve_forward [] p offset = offset"
| "resolve_forward (gap # rest) p offset =
     (if gap_from gap > p + offset then offset
      else resolve_forward rest p
             (if gap_from gap > p then offset + (gap_to gap - gap_from gap) else offset))"

definition resolvePos :: "InputStream \<Rightarrow> int \<Rightarrow> int \<Rightarrow> int" where
  "resolvePos s p offset =
     (case gaps s of
        None \<Rightarrow> p + offset
      | Some gs \<Rightarrow>
          if offset = 0 then p + offset
          else if offset < 0 then p + resolve_backward (rev gs) p offset
          else p + resolve_forward gs p offset)"

text \<open>
  \<^verbatim>\<open>peek(offset)\<close> returns the code unit and leaves the look-ahead of the active token
  updated.
\<close>

definition peek :: "InputStream \<Rightarrow> int \<Rightarrow> int option \<times> InputStream" where
  "peek s offset =
     (let idx = chunkOff s + offset
      in if idx \<ge> 0 \<and> idx < int (length (chunk s)) then
           (charCodeAt (chunk s) idx, note_lookAhead (pos s + offset) s)
         else
           (let p = resolvePos s (pos s) offset
            in (if p < start s \<or> p \<ge> end_pos s then Some (- 1)
                else charCodeAt (Input_read (input s) p (p + 1)) 0,
                note_lookAhead p s)))"

definition acceptToken :: "InputStream \<Rightarrow> int \<Rightarrow> int \<Rightarrow> InputStream" where
  "acceptToken s tok endOffset =
     upd_token (\<lambda>t. t\<lparr>tok_value := tok, tok_end := resolvePos s (pos s) endOffset\<rparr>) s"

text \<open>
  The loop of \<^verbatim>\<open>removeGapsFromChunk\<close> over the gaps not yet visited, with the locals
  \<open>from\<close> and \<open>to\<close>. It ends with \<^verbatim>\<open>return true\<close> (\<open>Done\<close>) or with
  \<^verbatim>\<open>return this.getChunk()\<close> (\<open>Refetch\<close>).
\<close>

datatype gap_scan = Done InputStream | Refetch InputStream

fun removeGaps_loop :: "InputGap list \<Rightarrow> int \<Rightarrow> int \<Rightarrow> InputStream \<Rightarrow> gap_scan" where
  "removeGaps_loop [] from' to' s = Done s"
| "removeGaps_loop (g # gs) from' to' s =
     (if gap_from g \<ge> to' then Done s
      else if gap_to g > from' then
        (if from' < gap_from g then
           Done (s\<lparr>chunk := js_slice (chunk s) 0 (gap_from g - from')\<rparr>)
         else
           (let s1 = s\<lparr>pos := gap_to g, chunkPos := gap_to g\<rparr>
            in if to' > gap_to g then
                 removeGaps_loop gs (gap_to g) to'
                   (s1\<lparr>chunk := js_slice_from (chunk s1) (gap_to g - from')\<rparr>)
               else Refetch (s1\<lparr>chunk := []\<rparr>)))
      else removeGaps_loop gs from' to' s)"

lemma removeGaps_loop_Refetch:
  "removeGaps_loop gs from' to' s = Refetch s' \<Longrightarrow> from' < pos s' \<and> end_pos s' = end_pos s"
proof (induction gs arbitrary: from' s)
  case Nil
  then show ?case by simp
next
  case (Cons g gs)
  show ?case
  proof (cases "gap_from g < to' \<and> gap_to g > from' \<and> \<not> from' < gap_from g \<and> to' > gap_to g")
    case True
    with Cons.prems have "removeGaps_loop gs (gap_to g) to'
        (s\<lparr>pos := gap_to g, chunkPos := gap_to g,
           chunk := js_slice_from (chunk s) (gap_to g - from')\<rparr>) = Refetch s'"
      by (simp add: Let_def)
    from Cons.IH [OF this] True show ?thesis by simp
  next
    case False
    with Cons.prems Cons.IH [of from' s] show ?thesis
      by (auto simp: Let_def split: if_splits)
  qed
qed

text \<open>
  \<^verbatim>\<open>getChunk()\<close> and \<^verbatim>\<open>removeGapsFromChunk()\<close>; the latter is handed the array behind
  \<^verbatim>\<open>this.gaps!\<close>. Both return the boolean and the stream.
\<close>

function getChunk :: "InputStream \<Rightarrow> bool \<times> InputStream"
  and removeGapsFromChunk :: "InputGap list \<Rightarrow> InputStream \<Rightarrow> bool \<times> InputStream" where
  "getChunk s =
     (if pos s \<ge> chunk2Pos s \<and> pos s < chunk2Pos s + int (length (chunk2 s)) then
        (True, s\<lparr>chunk := chunk2 s, chunkPos := chunk2Pos s,
                 chunk2 := chunk s, chunk2Pos := chunkPos s,
                 chunkOff := pos s - chunk2Pos s\<rparr>)
      else if pos s \<ge> end_pos s then
        (False, s\<lparr>nxt := Some (- 1), chunk := [], chunkOff := 0\<rparr>)
      else
        (let nextChunk = Input_chunk (input s) (pos s);
             end' = pos s + int (length nextChunk);
             s1 = s\<lparr>chunk2 := chunk s, chunk2Pos := chunkPos s,
                    chunk := (if end' > end_pos s then js_slice nextChunk 0 (end_pos s - pos s)
                              else nextChunk),
                    chunkPos := pos s, chunkOff := 0\<rparr>
         in case gaps s of
              None \<Rightarrow> (True, s1)
            | Some gs \<Rightarrow> removeGapsFromChunk gs s1))"
| "removeGapsFromChunk gs s =
     (case removeGaps_loop gs (pos s) (pos s + int (length (chunk s))) s of
        Done s' \<Rightarrow> (True, s')
      | Refetch s' \<Rightarrow> getChunk s')"
  by pat_completeness auto
termination
proof (relation "measure (\<lambda>x. case x of
     Inl s \<Rightarrow> (if pos s < end_pos s then 2 * nat (end_pos s - pos s) + 2 else 1)
   | Inr (gs, s) \<Rightarrow> (if pos s < end_pos s then 2 * nat (end_pos s - pos s) + 1 else 2))",
   goal_cases)
  case 1
  show ?case by simp
next
  case (2 s nextChunk end' s1 gs)
  then show ?case by simp
next
  case (3 gs s s')
  from removeGaps_loop_Refetch [OF 3]
  show ?case by auto
qed

declare getChunk.simps [simp del] removeGapsFromChunk.simps [simp del]

definition readNext :: "InputStream \<Rightarrow> InputStream" where
  "readNext s =
     (if chunkOff s = int (length (chunk s)) then
        (case getChunk s of
           (False, s') \<Rightarrow> s'
         | (True, s') \<Rightarrow> s'\<lparr>nxt := charCodeAt (chunk s') (chunkOff s')\<rparr>)
      else s\<lparr>nxt := charCodeAt (chunk s) (chunkOff s)\<rparr>)"

text \<open>
  \<^verbatim>\<open>advance(n)\<close>: the loop runs \<open>n\<close> times at most and returns -1 from inside as soon as
  \<^verbatim>\<open>this.next < 0\<close>; the test is false when \<^verbatim>\<open>next\<close> is \<^verbatim>\<open>NaN\<close>.
\<close>

fun advance_loop :: "nat \<Rightarrow> InputStream \<Rightarrow> int option \<times> InputStream" where
  "advance_loop 0 s = (nxt s, s)"
| "advance_loop (Suc k) s =
     (if opt_lt (nxt s) 0 then (Some (- 1), s)
      else advance_loop k
             (readNext (note_lookAhead (pos s + 1)
                (s\<lparr>chunkOff := chunkOff s + 1, pos := pos s + 1\<rparr>))))"

definition advance :: "InputStream \<Rightarrow> int \<Rightarrow> int option \<times> InputStream" where
  "advance s n = advance_loop (nat n) s"

text \<open>
  \<^verbatim>\<open>reset(pos, token?)\<close>: with a token, the token is bound and its \<^verbatim>\<open>start\<close>,
  \<^verbatim>\<open>lookAhead\<close>, \<^verbatim>\<open>value\<close> and \<^verbatim>\<open>extended\<close> are set; without, the stream goes back to
  \<^verbatim>\<open>nullToken\<close>.
\<close>

definition reset :: "InputStream \<Rightarrow> int \<Rightarrow> CachedToken option \<Rightarrow> InputStream" where
  "reset s p tok =
     (let s1 = (case tok of
                  Some t \<Rightarrow> s\<lparr>token := Some (t\<lparr>tok_start := p, lookAhead := p,
                                               tok_value := - 1, extended := - 1\<rparr>)\<rparr>
                | None \<Rightarrow> s\<lparr>token := None\<rparr>)
      in if pos s1 \<noteq> p then
           readNext
             (if p \<ge> chunkPos s1 \<and> p < chunkPos s1 + int (length (chunk s1))
              then s1\<lparr>pos := p, chunkOff := p - chunkPos s1\<rparr>
              else s1\<lparr>pos := p, chunk := [], chunkOff := 0\<rparr>)
         else s1)"

text \<open>
  \<^verbatim>\<open>read(from, to)\<close>: the loop over the gaps runs from the last to the first.
\<close>

fun read_gaps :: "InputGap list \<Rightarrow> int \<Rightarrow> int \<Rightarrow> jsstring \<Rightarrow> jsstring" where
  "read_gaps [] from' to' val = val"
| "read_gaps (g # gs) from' to' val =
     read_gaps gs from' to'
       (if gap_to g > from' \<and> gap_from g < to'
        then js_slice val 0 (max 0 (gap_from g - from'))
               @ js_slice_from val (min (int (length val)) (gap_to g - from'))
        else val)"

definition read :: "InputStream \<Rightarrow> int \<Rightarrow> int \<Rightarrow> jsstring" where
  "read s from' to' =
     (let val = (if from' \<ge> chunkPos s \<and> to' \<le> chunkPos s + int (length (chunk s))
                 then js_slice (chunk s) (from' - chunkPos s) (to' - chunkPos s)
                 else Input_read (input s) from' to')
      in case gaps s of
           None \<Rightarrow> val
         | Some gs \<Rightarrow> read_gaps (rev gs) from' to' val)"

text \<open>
  The constructor; \<open>gaps\<close> is \<^verbatim>\<open>undefined\<close> (\<open>None\<close>) or an array, and an empty array is
  stored as \<^verbatim>\<open>null\<close>. \<open>null_token\<close> is the contents of \<^verbatim>\<open>nullToken\<close> at that moment.
\<close>

definition InputStream_new ::
  "Input \<Rightarrow> int \<Rightarrow> int \<Rightarrow> InputGap list option \<Rightarrow> CachedToken \<Rightarrow> InputStream" where
  "InputStream_new inp start' end' gaps' null_token =
     readNext
       \<lparr>chunk = [], chunkOff = 0, chunkPos = start', chunk2 = [], chunk2Pos = 0,
        nxt = Some (- 1),
        gaps = (case gaps' of None \<Rightarrow> None | Some gs \<Rightarrow> if length gs \<noteq> 0 then Some gs else None),
        token = None, nullToken = null_token,
        pos = start', input = inp, start = start', end_pos = end'\<rparr>"

subsection \<open>Well-formed streams\<close>

text \<open>
  The gaps of a stream as a list; a position lies in a gap when it lies in one of the
  half-open ranges. The gap array is well formed when no range is inverted and the ranges
  are sorted and do not overlap.
\<close>

definition gap_list :: "InputStream \<Rightarrow> InputGap list" where
  "gap_list s = (case gaps s of None \<Rightarrow> [] | Some gs \<Rightarrow> gs)"

definition in_gap :: "InputGap list \<Rightarrow> int \<Rightarrow> bool" where
  "in_gap gs p = (\<exists>g \<in> set gs. gap_from g \<le> p \<and> p < gap_to g)"

definition wf_gaps :: "InputGap list \<Rightarrow> bool" where
  "wf_gaps gs =
     ((\<forall>g \<in> set gs. gap_from g \<le> gap_to g) \<and> sorted_wrt (\<lambda>a b. gap_to a \<le> gap_from b) gs)"

text \<open>
  The fixed part of a stream: the range \<open>[start, end)\<close> lies within the document and the
  gaps are well formed.
\<close>

definition config_ok :: "InputStream \<Rightarrow> bool" where
  "config_ok s =
     (0 \<le> start s \<and> end_pos s \<le> int (length (doc (input s))) \<and> wf_gaps (gap_list s))"

text \<open>
  A cached chunk \<open>c\<close> kept for position \<open>p\<close>, when not empty, lies within
  \<open>[start, end)\<close>, holds the text of the document at \<open>p\<close>, and overlaps no gap.
\<close>

definition chunk_ok :: "InputStream \<Rightarrow> int \<Rightarrow> jsstring \<Rightarrow> bool" where
  "chunk_ok s p c =
     (c \<noteq> [] \<longrightarrow>
        start s \<le> p \<and> p + int (length c) \<le> end_pos s \<and>
        c = take (length c) (drop (nat p) (doc (input s))) \<and>
        (\<forall>g \<in> set (gap_list s). gap_to g \<le> p \<or> p + int (length c) \<le> gap_from g))"

text \<open>
  The cursor: either it points into the current chunk, at the position of the stream, and
  \<open>nxt\<close> is the code unit there; or the chunk is empty, the stream is at or beyond its
  end, and \<open>nxt\<close> is -1.
\<close>

definition cursor_ok :: "InputStream \<Rightarrow> bool" where
  "cursor_ok s =
     (if chunkOff s < int (length (chunk s)) then
        0 \<le> chunkOff s \<and> pos s = chunkPos s + chunkOff s \<and>
        nxt s = charCodeAt (chunk s) (chunkOff s)
      else chunk s = [] \<and> chunkOff s = 0 \<and> end_pos s \<le> pos s \<and> nxt s = Some (- 1))"

definition stream_inv :: "InputStream \<Rightarrow> bool" where
  "stream_inv s =
     (config_ok s \<and> start s \<le> pos s \<and>
      chunk_ok s (chunkPos s) (chunk s) \<and> chunk_ok s (chunk2Pos s) (chunk2 s) \<and> cursor_ok s)"

text \<open>Two states of one stream: the fields that no method of the stream assigns agree.\<close>

definition same_stream :: "InputStream \<Rightarrow> InputStream \<Rightarrow> bool" where
  "same_stream s s' =
     (input s' = input s \<and> start s' = start s \<and> end_pos s' = end_pos s \<and> gaps s' = gaps s)"

text \<open>
  What the loop of \<^verbatim>\<open>removeGapsFromChunk\<close> leaves untouched.
\<close>

definition frame :: "InputStream \<Rightarrow> InputStream \<Rightarrow> bool" where
  "frame s s' = (same_stream s s' \<and> chunk2 s' = chunk2 s \<and> chunk2Pos s' = chunk2Pos s \<and>
     chunkOff s' = chunkOff s \<and> nxt s' = nxt s \<and> token s' = token s \<and> nullToken s' = nullToken s)"

text \<open>
  What \<^verbatim>\<open>getChunk\<close> relies on: the configuration and the two cached chunks; the cursor
  need not point into the chunk.
\<close>

definition fetch_pre :: "InputStream \<Rightarrow> bool" where
  "fetch_pre s = (config_ok s \<and> start s \<le> pos s \<and>
     chunk_ok s (chunkPos s) (chunk s) \<and> chunk_ok s (chunk2Pos s) (chunk2 s))"

text \<open>
  What \<^verbatim>\<open>getChunk\<close> guarantees for its result \<open>b\<close> and the state \<open>s'\<close> it leaves: the
  position has not moved backward, has not moved at all when it was outside every gap, and
  either the cursor points into a fresh chunk or the stream is at its end.
\<close>

definition fetch_post :: "InputStream \<Rightarrow> bool \<Rightarrow> InputStream \<Rightarrow> bool" where
  "fetch_post s b s' =
     (same_stream s s' \<and> token s' = token s \<and> nullToken s' = nullToken s \<and>
      pos s \<le> pos s' \<and> (\<not> in_gap (gap_list s) (pos s) \<longrightarrow> pos s' = pos s) \<and>
      chunk_ok s' (chunkPos s') (chunk s') \<and> chunk_ok s' (chunk2Pos s') (chunk2 s') \<and>
      (if b then 0 \<le> chunkOff s' \<and> chunkOff s' < int (length (chunk s')) \<and>
                 pos s' = chunkPos s' + chunkOff s' \<and> nxt s' = nxt s
       else chunk s' = [] \<and> chunkOff s' = 0 \<and> end_pos s' \<le> pos s' \<and> nxt s' = Some (- 1)))"

text \<open>
  What \<^verbatim>\<open>readNext\<close> relies on: the cursor points into the chunk or stands right at
  its end, as after \<^verbatim>\<open>chunkOff++\<close>.
\<close>

definition read_pre :: "InputStream \<Rightarrow> bool" where
  "read_pre s = (fetch_pre s \<and> 0 \<le> chunkOff s \<and> chunkOff s \<le> int (length (chunk s)) \<and>
     (chunkOff s < int (length (chunk s)) \<longrightarrow> pos s = chunkPos s + chunkOff s))"

text \<open>
  A later state of the same stream, with the same token binding.
\<close>

definition moved :: "InputStream \<Rightarrow> InputStream \<Rightarrow> bool" where
  "moved s s' = (same_stream s s' \<and> token s' = token s \<and> nullToken s' = nullToken s \<and>
     pos s \<le> pos s')"

text \<open>
  The stream is clear of the gaps: its position lies in no gap unless the stream is at or
  beyond its end, and its chunk overlaps no gap.
\<close>

definition gap_clear :: "InputStream \<Rightarrow> bool" where
  "gap_clear s =
     ((\<not> in_gap (gap_list s) (pos s) \<or> end_pos s \<le> pos s) \<and>
      (\<forall>q \<in> {chunkPos s ..< chunkPos s + int (length (chunk s))}. \<not> in_gap (gap_list s) q))"

text \<open>
  The gaps end within the range of the stream.
\<close>

definition gaps_within :: "InputStream \<Rightarrow> bool" where
  "gaps_within s = (\<forall>g \<in> set (gap_list s). gap_to g \<le> end_pos s)"

text \<open>
  The text \<^verbatim>\<open>ab###cd\<close> with the gap \<open>[2, 5)\<close>, read as a whole, and the stream over it;
  the same stream after four steps stands at its end.
\<close>

definition demo_gap_input :: Input where
  "demo_gap_input = \<lparr>doc = [97, 98, 35, 35, 35, 99, 100], chunkLen = (\<lambda>_. 100)\<rparr>"

definition demo_gap_stream :: InputStream where
  "demo_gap_stream =
     InputStream_new demo_gap_input 0 7 (Some [\<lparr>gap_from = 2, gap_to = 5\<rparr>]) new_CachedToken"

definition demo_end_stream :: InputStream where
  "demo_end_stream = snd (advance demo_gap_stream 4)"

text \<open>
  A stream over the last code unit of the text \<^verbatim>\<open>ab\<close>: its range is \<open>[1, 2)\<close>.
\<close>

definition demo_tail_stream :: InputStream where
  "demo_tail_stream = InputStream_new \<lparr>doc = [97, 98], chunkLen = (\<lambda>_. 100)\<rparr> 1 2 None new_CachedToken"

text \<open>The stream over \<^verbatim>\<open>ab###cd\<close> after one step, at position 1.\<close>

definition demo_step_stream :: InputStream where
  "demo_step_stream = snd (advance demo_gap_stream 1)"

text \<open>
  The stream over the first two code units of \<^verbatim>\<open>ab###cd\<close>, range \<open>[0, 2)\<close>, with the gap
  \<open>[2, 5)\<close> that begins where the range ends.
\<close>

definition demo_short_stream :: InputStream where
  "demo_short_stream =
     InputStream_new demo_gap_input 0 2 (Some [\<lparr>gap_from = 2, gap_to = 5\<rparr>]) new_CachedToken"

text \<open>
  The stream over \<^verbatim>\<open>ab###cd\<close> at position 1 with the cursor moved on as \<^verbatim>\<open>advance\<close> moves it
  before it calls \<^verbatim>\<open>readNext\<close>: position 2, the first inside the gap, at the end of the
  chunk \<^verbatim>\<open>ab\<close>.
\<close>

definition demo_fetch_stream :: InputStream where
  "demo_fetch_stream =
     demo_step_stream\<lparr>chunkOff := chunkOff demo_step_stream + 1, pos := pos demo_step_stream + 1\<rparr>"

text \<open>
  A stream whose range \<open>[0, 5)\<close> reaches beyond the text \<^verbatim>\<open>ab\<close>, and a stream over
  \<^verbatim>\<open>abcdefgh\<close> whose gaps \<open>[5, 6)\<close> and \<open>[2, 3)\<close> are not sorted.
\<close>

definition demo_over_stream :: InputStream where
  "demo_over_stream = InputStream_new \<lparr>doc = [97, 98], chunkLen = (\<lambda>_. 100)\<rparr> 0 5 None new_CachedToken"

definition demo_unsorted_stream :: InputStream where
  "demo_unsorted_stream =
     InputStream_new \<lparr>doc = [97, 98, 99, 100, 101, 102, 103, 104], chunkLen = (\<lambda>_. 100)\<rparr> 0 8
       (Some [\<lparr>gap_from = 5, gap_to = 6\<rparr>, \<lparr>gap_from = 2, gap_to = 3\<rparr>]) new_CachedToken"

text \<open>
  What the specification says of a position and the gaps, in its own words: a position
  below the end of the stream that lies inside a gap \<open>[from, to)\<close> moves to the gap's \<open>to\<close>,
  and on from there through the gaps that follow. \<open>advance_walk\<close> is \<open>n\<close> steps of a
  stream that reads as if the gap content were absent: each step, taken below the end
  only, moves to the next position and from there out of the gaps.
\<close>

fun skip_gaps :: "int \<Rightarrow> InputGap list \<Rightarrow> int \<Rightarrow> int" where
  "skip_gaps e [] p = p"
| "skip_gaps e (g # gs) p =
     skip_gaps e gs (if p < e \<and> gap_from g \<le> p \<and> p < gap_to g then gap_to g else p)"

fun advance_walk :: "int \<Rightarrow> InputGap list \<Rightarrow> nat \<Rightarrow> int \<Rightarrow> int" where
  "advance_walk e gs 0 p = p"
| "advance_walk e gs (Suc n) p =
     (if e \<le> p then p else advance_walk e gs n (skip_gaps e gs (p + 1)))"

text \<open>
  What the specification says of \<^verbatim>\<open>read\<close>, in its own words: the text, which starts at
  position \<open>p\<close>, with the characters at positions inside a gap removed.
\<close>

fun strip_gaps :: "InputGap list \<Rightarrow> int \<Rightarrow> jsstring \<Rightarrow> jsstring" where
  "strip_gaps gs p [] = []"
| "strip_gaps gs p (x # xs) =
     (if in_gap gs p then strip_gaps gs (p + 1) xs else x # strip_gaps gs (p + 1) xs)"

section \<open>The tokenizer interpreter (token.ts)\<close>

text \<open>
  \<^verbatim>\<open>data[i]\<close> on the table, where the index itself may be \<^verbatim>\<open>undefined\<close> or \<^verbatim>\<open>NaN\<close>;
  \<^verbatim>\<open>1 << group\<close>; and \<^verbatim>\<open>a & b\<close> with a possibly undefined right operand
  (\<^verbatim>\<open>ToInt32(undefined)\<close> is 0).
\<close>

definition rd :: "uint16array \<Rightarrow> int option \<Rightarrow> int option" where
  "rd data i = (case i of None \<Rightarrow> None | Some j \<Rightarrow> map_option uint (js_index data j))"

definition js_shl1 :: "int \<Rightarrow> int" where
  "js_shl1 grp = to_int32 (push_bit (nat (grp mod 32)) 1)"

definition js_and :: "int \<Rightarrow> int option \<Rightarrow> int" where
  "js_and a b = (case b of None \<Rightarrow> 0 | Some y \<Rightarrow> to_int32 a AND to_int32 y)"

text \<open>
  The loop over the accepting entries of a state, from index \<open>i\<close> on. \<open>allows\<close> is
  \<^verbatim>\<open>dialect.allows\<close> and \<open>overrides\<close> is \<^verbatim>\<open>parser.overrides\<close>, both of the parser and
  parameters here. The loop ends at the first token it accepts. When
  \<^verbatim>\<open>data[i + 1] & groupMask\<close> is positive, \<open>i + 1\<close> is an index of the table; \<open>i\<close> is one
  as well, since the loop starts at \<open>state + 3\<close>, so that \<^verbatim>\<open>term\<close> is a number.
\<close>

function accept_loop ::
  "uint16array \<Rightarrow> (int \<Rightarrow> bool) \<Rightarrow> (int \<Rightarrow> int \<Rightarrow> bool) \<Rightarrow> int \<Rightarrow> int \<Rightarrow> int option
     \<Rightarrow> InputStream \<Rightarrow> InputStream" where
  "accept_loop data allows overrides groupMask i accEnd inp =
     (if opt_gt accEnd i then
        (if js_and groupMask (rd data (Some (i + 1))) > 0 then
           (case rd data (Some i) of
              Some term \<Rightarrow>
                if allows term \<and>
                   (tok_value (the_token inp) = - 1 \<or> tok_value (the_token inp) = term
                    \<or> overrides term (tok_value (the_token inp)))
                then acceptToken inp term 0
                else accept_loop data allows overrides groupMask (i + 2) accEnd inp
            | None \<Rightarrow> accept_loop data allows overrides groupMask (i + 2) accEnd inp)
         else accept_loop data allows overrides groupMask (i + 2) accEnd inp)
      else inp)"
  by pat_completeness auto
termination
  by (relation "measure (\<lambda>(data, allows, overrides, groupMask, i, accEnd, inp).
        case accEnd of None \<Rightarrow> 0 | Some e \<Rightarrow> nat (e - i))")
    (auto simp: opt_gt_def split: option.splits)

declare accept_loop.simps [simp del]

text \<open>
  The binary search over the edges of a state. It ends without a match (\<open>NoEdge\<close>) or
  with the new value of \<^verbatim>\<open>state\<close>, \<^verbatim>\<open>data[index + 2]\<close>. \<open>low\<close> starts at 0 and \<open>high\<close> is
  an element of the table, so that \<^verbatim>\<open>(low + high) >> 1\<close> and \<^verbatim>\<open>mid << 1\<close> stay far below
  \<open>2^31\<close> and are the halved sum and the double. The comparisons are false when an
  operand is not a number.
\<close>

datatype edge_result = NoEdge | Edge "int option"

definition num_lt :: "int option \<Rightarrow> int option \<Rightarrow> bool" where
  "num_lt a b = (case (a, b) of (Some x, Some y) \<Rightarrow> x < y | _ \<Rightarrow> False)"

definition num_ge :: "int option \<Rightarrow> int option \<Rightarrow> bool" where
  "num_ge a b = (case (a, b) of (Some x, Some y) \<Rightarrow> x \<ge> y | _ \<Rightarrow> False)"

function findEdge :: "uint16array \<Rightarrow> int option \<Rightarrow> int option \<Rightarrow> int \<Rightarrow> int \<Rightarrow> edge_result" where
  "findEdge data accEnd next' low high =
     (if low < high then
        (let mid = (low + high) div 2;
             index = map_option (\<lambda>a. a + mid + 2 * mid) accEnd;
             from' = rd data index;
             to' = rd data (map_option (\<lambda>j. j + 1) index)
         in if num_lt next' from' then findEdge data accEnd next' low mid
            else if num_ge next' to' then findEdge data accEnd next' (mid + 1) high
            else Edge (rd data (map_option (\<lambda>j. j + 2) index)))
      else NoEdge)"
  by pat_completeness auto
termination
  by (relation "measure (\<lambda>(data, accEnd, next', low, high). nat (high - low))") auto

declare findEdge.simps [simp del]

text \<open>
  The loop \<^verbatim>\<open>scan\<close> of \<^verbatim>\<open>readToken\<close>. \<open>state\<close> is \<open>None\<close> when it was read from beyond the
  table; the mask test then fails. With \<^verbatim>\<open>data[state + 2]\<close> undefined the test
  \<^verbatim>\<open>low < high\<close> is false and the search does not start. The loop need not end on every
  table and input, so the result is optional and \<open>None\<close> stands for a run without end.
\<close>

partial_function (option) readToken_scan ::
  "uint16array \<Rightarrow> (int \<Rightarrow> bool) \<Rightarrow> (int \<Rightarrow> int \<Rightarrow> bool) \<Rightarrow> int \<Rightarrow> int option \<Rightarrow> InputStream
     \<Rightarrow> InputStream option" where
  "readToken_scan data allows overrides groupMask state inp =
     (if js_and groupMask (rd data state) = 0 then Some inp
      else
        (let accEnd = rd data (map_option (\<lambda>s. s + 1) state);
             inp1 = (case state of
                       None \<Rightarrow> inp
                     | Some st \<Rightarrow> accept_loop data allows overrides groupMask (st + 3) accEnd inp)
         in case (case rd data (map_option (\<lambda>s. s + 2) state) of
                    None \<Rightarrow> NoEdge
                  | Some high \<Rightarrow> findEdge data accEnd (nxt inp1) 0 high) of
              NoEdge \<Rightarrow> Some inp1
            | Edge state' \<Rightarrow>
                readToken_scan data allows overrides groupMask state' (snd (advance inp1 1))))"

definition readToken ::
  "uint16array \<Rightarrow> InputStream \<Rightarrow> (int \<Rightarrow> bool) \<Rightarrow> (int \<Rightarrow> int \<Rightarrow> bool) \<Rightarrow> int
     \<Rightarrow> InputStream option" where
  "readToken data inp allows overrides grp =
     readToken_scan data allows overrides (js_shl1 grp) (Some 0) inp"

text \<open>
  The edges of a state as the specification describes them: \<open>n\<close> triples
  \<open>(from, toExclusive, nextState)\<close> stored from index \<open>accEnd\<close> on; they are sorted by
  \<open>from\<close> and do not overlap, each edge ending at or before every later one begins.
  \<open>linear_scan\<close> is the search the specification compares with: the first edge, in
  order, whose range holds the character.
\<close>

definition table_ok :: "uint16array \<Rightarrow> int \<Rightarrow> nat \<Rightarrow> bool" where
  "table_ok data accEnd n = (0 \<le> accEnd \<and> accEnd + 3 * int n \<le> int (length data))"

definition edge_at :: "uint16array \<Rightarrow> int \<Rightarrow> nat \<Rightarrow> int \<times> int \<times> int" where
  "edge_at data accEnd k =
     (uint (data ! nat (accEnd + 3 * int k)),
      uint (data ! nat (accEnd + 3 * int k + 1)),
      uint (data ! nat (accEnd + 3 * int k + 2)))"

definition edges :: "uint16array \<Rightarrow> int \<Rightarrow> nat \<Rightarrow> (int \<times> int \<times> int) list" where
  "edges data accEnd n = map (edge_at data accEnd) [0..<n]"

definition edge_matches :: "int \<Rightarrow> int \<times> int \<times> int \<Rightarrow> bool" where
  "edge_matches c e = (fst e \<le> c \<and> c < fst (snd e))"

definition sorted_edges :: "(int \<times> int \<times> int) list \<Rightarrow> bool" where
  "sorted_edges es = sorted_wrt (\<lambda>a b. fst a \<le> fst b \<and> fst (snd a) \<le> fst b) es"

definition linear_scan :: "(int \<times> int \<times> int) list \<Rightarrow> int \<Rightarrow> edge_result" where
  "linear_scan es c =
     (case List.find (edge_matches c) es of
        None \<Rightarrow> NoEdge
      | Some e \<Rightarrow> Edge (Some (snd (snd e))))"

text \<open>
  A small table and a one-character stream, for running the interpreter: state 0 belongs
  to group 0, accepts nothing and has the edges \<open>[97, 99) \<rightarrow> 9\<close> and \<open>[100, 101) \<rightarrow> 9\<close>;
  state 9 belongs to no group.
\<close>

definition demo_table :: uint16array where
  "demo_table = [1, 3, 2, 97, 99, 9, 100, 101, 9, 0]"

definition demo_stream :: InputStream where
  "demo_stream = InputStream_new \<lparr>doc = [98], chunkLen = (\<lambda>_. 0)\<rparr> 0 1 None new_CachedToken"

section \<open>ParseState: anyReduce\<close>

lemma anyReduce_scan_find:
  "anyReduce_scan xs =
     (case List.find (\<lambda>a. a > 0) (map snd (action_pairs xs)) of Some a \<Rightarrow> a | None \<Rightarrow> 0)"
  by (induction xs rule: anyReduce_scan.induct) simp_all

text \<open>
  Claim C8. For every parse state, \<^verbatim>\<open>anyReduce()\<close> is \<open>alwaysReduce\<close> when that is
  non-negative; otherwise it is the first positive action met when the (terminal, action)
  pairs of \<open>actions\<close> are scanned in order, and 0 when there is none.
\<close>

theorem anyReduce_refines_spec: "anyReduce st = anyReduce_spec st"
  by (simp add: anyReduce_def anyReduce_spec_def anyReduce_scan_find)

section \<open>TagMap: get\<close>

lemma to_int32_small: "0 \<le> x \<Longrightarrow> x < 2 ^ 31 \<Longrightarrow> to_int32 x = x"
  unfolding to_int32_def
  by (simp add: signed_take_bit_int_eq_self)

lemma TagMap_empty_is_new: "TagMap_new JSON_parse [] values = Some TagMap_empty"
  by (simp add: TagMap_new_def TagMap_empty_def)

text \<open>
  Claim C10, as amended. For every map and every term id below \<open>2^31\<close>: when the low
  (tagged) bit of the id is 0, \<^verbatim>\<open>get\<close> returns \<^verbatim>\<open>null\<close> whatever the map holds; when it is
  set and \<open>id >> 1\<close> is an index of \<open>content\<close>, \<^verbatim>\<open>get\<close> returns the entry stored there
  (\<^verbatim>\<open>null\<close> when the constructor found no value for that tag); when it is set and
  \<open>id >> 1\<close> is beyond the stored entries, \<^verbatim>\<open>get\<close> returns \<^verbatim>\<open>undefined\<close>, not \<^verbatim>\<open>null\<close>.
\<close>

theorem TagMap_get_cases:
  "n < 2 ^ 31 \<Longrightarrow>
   TagMap_get m (int n) =
     (if even n then Null
      else if n div 2 < length (content m) then
        (case content m ! (n div 2) of None \<Rightarrow> Null | Some v \<Rightarrow> Val v)
      else Undefined)"
proof -
  assume n: "n < 2 ^ 31"
  have i: "to_int32 (int n) = int n"
    using n by (intro to_int32_small) auto
  have d: "drop_bit (Suc 0) (int n) = int (n div 2)"
    by (simp add: drop_bit_eq_div)
  show ?thesis
    by (simp add: TagMap_get_def i d js_index_def and_one_eq mod_2_eq_odd split: option.splits)
qed

theorem TagMap_get_cases_witness:
  "TagMap_get \<lparr>content = [None, Some (CHR ''a'')]\<rparr> 2 = Null \<and>
   TagMap_get \<lparr>content = [None, Some (CHR ''a'')]\<rparr> 1 = Null \<and>
   TagMap_get \<lparr>content = [None, Some (CHR ''a'')]\<rparr> 3 = Val (CHR ''a'') \<and>
   TagMap_get \<lparr>content = [None, Some (CHR ''a'')]\<rparr> 5 = Undefined"
  using TagMap_get_cases [of 2 "\<lparr>content = [None, Some (CHR ''a'')]\<rparr>"]
    TagMap_get_cases [of 1 "\<lparr>content = [None, Some (CHR ''a'')]\<rparr>"]
    TagMap_get_cases [of 3 "\<lparr>content = [None, Some (CHR ''a'')]\<rparr>"]
    TagMap_get_cases [of 5 "\<lparr>content = [None, Some (CHR ''a'')]\<rparr>"]
  by simp

text \<open>
  Claim C10 as stated fails where no entry is stored at the index: on \<^verbatim>\<open>TagMap.empty\<close>
  the tagged id 1 reads \<^verbatim>\<open>content[0]\<close> of an empty array, which is \<^verbatim>\<open>undefined\<close>.
\<close>

theorem TagMap_get_absent_counterexample:
  "TagMap_get (TagMap_empty :: nat TagMap) 1 \<noteq> Null"
  by (simp add: TagMap_get_def TagMap_empty_def to_int32_def js_index_def)

section \<open>Incremental reuse: unchanged and partial\<close>

lemma zipped_snoc:
  "length (fst out) = length (snd out) \<Longrightarrow>
   zipped (fst out @ [c], snd out @ [q]) = insert (c, q) (zipped out)"
  by (auto simp: zipped_def)

lemma fits_mono: "set occ \<subseteq> set occ' \<Longrightarrow> fits occ lo hi shift x \<Longrightarrow> fits occ' lo hi shift x"
  unfolding fits_def by blast

lemma fits_append:
  "fits (xs @ ys) lo hi shift x = (fits xs lo hi shift x \<or> fits ys lo hi shift x)"
  unfolding fits_def by auto

lemma partial_retained:
  "length (fst out) = length (snd out) \<Longrightarrow>
     length (fst (Tree_partial cs ps start' end' offset out))
       = length (snd (Tree_partial cs ps start' end' offset out)) \<and>
     (\<forall>x \<in> zipped (Tree_partial cs ps start' end' offset out).
        x \<in> zipped out \<or>
        fits (all_subtrees cs ps base) (start' + base) (end' + base) (offset - base) x)"
  "length (fst out) = length (snd out) \<Longrightarrow>
     length (fst (subtree_partial c start' end' offset out))
       = length (snd (subtree_partial c start' end' offset out)) \<and>
     (\<forall>x \<in> zipped (subtree_partial c start' end' offset out).
        x \<in> zipped out \<or>
        fits (sub_subtrees c base) (start' + base) (end' + base) (offset - base) x)"
proof (induction cs ps start' end' offset out and c start' end' offset out
    arbitrary: base and base rule: Tree_partial_subtree_partial.induct)
  case (1 ps start' end' offset out)
  then show ?case by simp
next
  case (2 child cs start' end' offset out)
  then show ?case by simp
next
  case (3 child cs from' ps start' end' offset out)
  show ?case
  proof (cases "from' \<ge> end'")
    case True
    with 3 show ?thesis by simp
  next
    case False
    define mid where "mid = (case subtree_length child of
                None \<Rightarrow> out
              | Some len \<Rightarrow>
                  if from' + len > start'
                  then subtree_partial child (start' - from') (end' - from') (offset + from') out
                  else out)"
    have mid: "length (fst mid) = length (snd mid) \<and>
       (\<forall>x \<in> zipped mid. x \<in> zipped out \<or>
          fits (sub_subtrees child (base + from')) (start' + base) (end' + base) (offset - base) x)"
    proof (cases "subtree_length child")
      case None
      then show ?thesis using 3 by (simp add: mid_def)
    next
      case (Some len)
      show ?thesis
      proof (cases "from' + len > start'")
        case True
        from "3.IH"(1)[OF False Some True "3.prems", of "base + from'"]
        show ?thesis using Some True
          by (simp add: mid_def algebra_simps)
      next
        case g: False
        then show ?thesis using Some 3 by (simp add: mid_def)
      qed
    qed
    have rest: "length (fst (Tree_partial cs ps start' end' offset mid))
       = length (snd (Tree_partial cs ps start' end' offset mid)) \<and>
     (\<forall>x \<in> zipped (Tree_partial cs ps start' end' offset mid).
        x \<in> zipped mid \<or>
        fits (all_subtrees cs ps base) (start' + base) (end' + base) (offset - base) x)"
      using "3.IH"(2)[OF False, of base] mid unfolding mid_def by blast
    have eq: "Tree_partial (child # cs) (from' # ps) start' end' offset out
        = Tree_partial cs ps start' end' offset mid"
      using False by (simp add: mid_def)
    show ?thesis
      unfolding eq using rest mid
      by (auto simp: fits_append)
  qed
next
  case (4 tag len cs ps start' end' offset out)
  show ?case
  proof (cases "start' \<le> 0 \<and> end' \<ge> len")
    case True
    then show ?thesis using 4(2)
      by (auto simp: zipped_snoc fits_def)
  next
    case False
    from "4.IH"[OF False "4.prems", of base] False
    show ?thesis
      by (auto intro: fits_mono [rotated])
  qed
next
  case (5 b start' end' offset out)
  then show ?case
    by (auto simp: zipped_snoc fits_def split: option.splits)
qed

lemma tree_partial_retained:
  assumes "length (fst out) = length (snd out)"
  shows "length (fst (tree_partial t start' end' offset out))
           = length (snd (tree_partial t start' end' offset out)) \<and>
         (\<forall>x \<in> zipped (tree_partial t start' end' offset out).
            x \<in> zipped out \<or> fits (tree_subtrees t) start' end' offset x)"
proof (cases t)
  case (Tree cs ps)
  then show ?thesis using partial_retained(1)[OF assms, of cs ps start' end' offset 0] by simp
next
  case (NodeTree tag len cs ps)
  then show ?thesis
    using partial_retained(2)[OF assms, of "Node tag len cs ps" start' end' offset 0] by simp
qed

lemma sorted_changes_append:
  "sorted_changes (xs @ ys) \<Longrightarrow> x \<in> set xs \<Longrightarrow> y \<in> set ys \<Longrightarrow> toA x \<le> fromA y"
  by (auto simp: sorted_changes_def sorted_wrt_append)

lemma sorted_changes_Cons:
  "sorted_changes (xs @ y # ys) \<Longrightarrow> z \<in> set ys \<Longrightarrow> fromA y \<le> fromA z"
  by (fastforce simp: sorted_changes_def sorted_wrt_append)

lemma fits_reuse_by_length:
  assumes "fits (tree_subtrees t) pos' (nextPos - 1) (sum_list (map delta before)) x"
    and "\<forall>ch \<in> set before. toA ch \<le> pos'"
    and "\<forall>ch \<in> set after. nextPos \<le> fromA ch"
  shows "reuse_by_length t (before @ after) (fst x) (snd x)"
proof -
  from assms(1) obtain a l where a:
    "(fst x, a) \<in> set (tree_subtrees t)" "subtree_length (fst x) = Some l"
    "snd x = a + sum_list (map delta before)" "pos' \<le> a" "a + l \<le> nextPos - 1"
    unfolding fits_def by blast
  have "\<forall>ch \<in> set before. toA ch \<le> a"
    using assms(2) a(4) by force
  moreover have "\<forall>ch \<in> set after. a + l < fromA ch"
    using assms(3) a(5) by force
  ultimately show ?thesis
    unfolding reuse_by_length_def using a(1,2,3) by blast
qed

lemma unchanged_loop_retained:
  assumes "length (fst out) = length (snd out)"
    and "sorted_changes (before @ rest)"
    and "\<forall>ch \<in> set before. toA ch \<le> pos'"
    and "off = sum_list (map delta before)"
  shows "length (fst (unchanged_loop t rest pos' off out))
           = length (snd (unchanged_loop t rest pos' off out)) \<and>
         (\<forall>x \<in> zipped (unchanged_loop t rest pos' off out).
            x \<in> zipped out \<or> reuse_by_length t (before @ rest) (fst x) (snd x))"
  using assms
proof (induction rest arbitrary: before pos' off out)
  case Nil
  show ?case
  proof (cases "tree_length t")
    case None
    then show ?thesis using Nil by simp
  next
    case (Some nextPos)
    show ?thesis
    proof (cases "nextPos > pos'")
      case True
      have "reuse_by_length t (before @ []) (fst x) (snd x)"
        if "fits (tree_subtrees t) pos' (nextPos - 1) off x" for x
        using fits_reuse_by_length[of t pos' nextPos before x "[]"] that Nil.prems by simp
      then show ?thesis
        using tree_partial_retained[OF Nil.prems(1), of t pos' "nextPos - 1" off] Some True
        by auto
    next
      case False
      then show ?thesis using Some Nil by simp
    qed
  next
  qed
next
  case (Cons next' rest)
  define out' where "out' = (if fromA next' > pos' then tree_partial t pos' (fromA next' - 1) off out else out)"
  have after: "\<forall>ch \<in> set (next' # rest). fromA next' \<le> fromA ch"
    using sorted_changes_Cons[OF Cons.prems(2)] by auto
  have sound: "reuse_by_length t (before @ next' # rest) (fst x) (snd x)"
    if "fits (tree_subtrees t) pos' (fromA next' - 1) off x" for x
    using fits_reuse_by_length[of t pos' "fromA next'" before x "next' # rest"] that Cons.prems after
    by simp
  have out': "length (fst out') = length (snd out') \<and>
      (\<forall>x \<in> zipped out'. x \<in> zipped out \<or> reuse_by_length t (before @ next' # rest) (fst x) (snd x))"
    using tree_partial_retained[OF Cons.prems(1), of t pos' "fromA next' - 1" off] sound Cons.prems(1)
    by (auto simp: out'_def)
  have s: "sorted_changes ((before @ [next']) @ rest)"
    using Cons.prems(2) by simp
  have b: "\<forall>ch \<in> set (before @ [next']). toA ch \<le> toA next'"
  proof
    fix ch assume "ch \<in> set (before @ [next'])"
    then consider "ch \<in> set before" | "ch = next'" by auto
    then show "toA ch \<le> toA next'"
    proof cases
      case 1
      have "toA ch \<le> fromA next'"
        using sorted_changes_append[OF Cons.prems(2) 1, of next'] by simp
      moreover have "fromA next' \<le> toA next'"
        using Cons.prems(2) by (simp add: sorted_changes_def)
      ultimately show ?thesis by simp
    next
      case 2
      then show ?thesis by simp
    qed
  qed
  have o: "off + delta next' = sum_list (map delta (before @ [next']))"
    using Cons.prems(4) by simp
  from Cons.IH[OF conjunct1[OF out'] s b o]
  have "length (fst (unchanged_loop t rest (toA next') (off + delta next') out'))
           = length (snd (unchanged_loop t rest (toA next') (off + delta next') out')) \<and>
         (\<forall>x \<in> zipped (unchanged_loop t rest (toA next') (off + delta next') out').
            x \<in> zipped out' \<or> reuse_by_length t (before @ next' # rest) (fst x) (snd x))"
    by simp
  moreover have "unchanged_loop t (next' # rest) pos' off out
      = unchanged_loop t rest (toA next') (off + delta next') out'"
    by (simp add: out'_def delta_def Let_def)
  ultimately show ?case using out' by auto
qed


lemma length_covers_extent:
  "length_covers c \<Longrightarrow> subtree_length c = Some l \<Longrightarrow> l = subtree_extent c"
  by (cases c) auto

lemma reuse_by_length_sound:
  assumes "reuse_by_length t changes c q" and "length_covers c"
  shows "reuse_sound t changes c q"
proof -
  from assms(1) obtain a l before after where r:
    "(c, a) \<in> set (tree_subtrees t)" "subtree_length c = Some l" "changes = before @ after"
    "\<forall>ch \<in> set before. toA ch \<le> a" "\<forall>ch \<in> set after. a + l < fromA ch"
    "q = a + sum_list (map delta before)"
    unfolding reuse_by_length_def by blast
  from length_covers_extent[OF assms(2) r(2)] have "l = subtree_extent c" .
  with r show ?thesis unfolding reuse_sound_def by blast
qed

text \<open>
  Claim C1, as amended. For every prior tree and every sorted, non-overlapping list of
  changes, every subtree that \<^verbatim>\<open>unchanged\<close> (through \<^verbatim>\<open>partial\<close>) retains is a subtree of the
  prior tree that lies, as far as its \<^verbatim>\<open>length\<close> getter reports it, within an unchanged
  span: every change either ends at or before its start, or begins strictly beyond its
  end (the code keeps a fixed margin of one position before the next change). Its new
  position is the old one moved by the net growth of the changes before it. For every
  retained \<^verbatim>\<open>Node\<close>, and for every retained \<^verbatim>\<open>TreeBuffer\<close> whose last quad ends where the
  nodes of the buffer end, that is the range of the nodes the subtree holds. The trees
  store no look-ahead, and none is consulted.
\<close>

theorem unchanged_retains_within_unchanged_span:
  assumes "sorted_changes changes" and "changes \<noteq> []"
    and "Tree_unchanged t changes = Tree children positions"
    and "i < length children"
  shows "length positions = length children \<and>
         reuse_by_length t changes (children ! i) (positions ! i) \<and>
         (length_covers (children ! i) \<longrightarrow>
            reuse_sound t changes (children ! i) (positions ! i))"
proof -
  have r: "unchanged_loop t changes 0 0 ([], []) = (children, positions)"
    using assms(2,3) by (simp add: Tree_unchanged_def split: prod.splits)
  from unchanged_loop_retained[of "([], [])" "[]" changes 0 0 t] assms(1) r
  have l: "length children = length positions"
    and k: "\<forall>x \<in> zipped (children, positions).
              x \<in> zipped ([], []) \<or> reuse_by_length t changes (fst x) (snd x)"
    by simp_all
  have "(children ! i, positions ! i) \<in> zipped (children, positions)"
    using assms(4) l by (auto simp: zipped_def in_set_zip)
  with k have "reuse_by_length t changes (children ! i) (positions ! i)"
    by (auto simp: zipped_def)
  with l reuse_by_length_sound[of t changes "children ! i" "positions ! i"]
  show ?thesis by auto
qed

theorem unchanged_retains_witness:
  "sorted_changes [\<lparr>fromA = 4, toA = 5, fromB = 4, toB = 7\<rparr>] \<and>
   Tree_unchanged (Tree [TreeBuffer [1, 0, 3, 0], Node 3 2 [] [], Node 5 4 [] []] [0, 3, 5])
     [\<lparr>fromA = 4, toA = 5, fromB = 4, toB = 7\<rparr>] = Tree [TreeBuffer [1, 0, 3, 0]] [0] \<and>
   length_covers (TreeBuffer [1, 0, 3, 0]) \<and>
   reuse_sound (Tree [TreeBuffer [1, 0, 3, 0], Node 3 2 [] [], Node 5 4 [] []] [0, 3, 5])
     [\<lparr>fromA = 4, toA = 5, fromB = 4, toB = 7\<rparr>] (TreeBuffer [1, 0, 3, 0]) 0"
proof -
  have s: "sorted_changes [\<lparr>fromA = 4, toA = 5, fromB = 4, toB = 7\<rparr>]"
    by (simp add: sorted_changes_def)
  have u: "Tree_unchanged (Tree [TreeBuffer [1, 0, 3, 0], Node 3 2 [] [], Node 5 4 [] []] [0, 3, 5])
     [\<lparr>fromA = 4, toA = 5, fromB = 4, toB = 7\<rparr>] = Tree [TreeBuffer [1, 0, 3, 0]] [0]"
    by code_simp
  have c: "length_covers (TreeBuffer [1, 0, 3, 0])" by code_simp
  from unchanged_retains_within_unchanged_span[OF s _ u, of 0] s u c
  show ?thesis by simp
qed


text \<open>
  Claim C1 as stated fails twice. A node of length 3 at position 0 is retained in front of
  a change at position 4 whatever its tokens inspected; had it a stored look-ahead of 5,
  the rule of the specification would reject it. And a buffer that holds a node over
  \<open>[0, 10)\<close> with a child over \<open>[1, 3)\<close> reports the length 3, the end of its last quad, and
  is retained across the change \<open>[5, 6)\<close>, which lies inside the node.
\<close>

theorem unchanged_ignores_lookAhead_counterexample:
  "Tree_unchanged (Tree [Node 1 3 [] []] [0]) [\<lparr>fromA = 4, toA = 5, fromB = 4, toB = 5\<rparr>]
     = Tree [Node 1 3 [] []] [0] \<and>
   \<not> spec_reusable [\<lparr>fromA = 4, toA = 5, fromB = 4, toB = 5\<rparr>] 0 3 5 \<and>
   Tree_unchanged (Tree [TreeBuffer [1, 0, 10, 1, 3, 1, 3, 0]] [0])
       [\<lparr>fromA = 5, toA = 6, fromB = 5, toB = 6\<rparr>]
     = Tree [TreeBuffer [1, 0, 10, 1, 3, 1, 3, 0]] [0] \<and>
   subtree_length (TreeBuffer [1, 0, 10, 1, 3, 1, 3, 0]) = Some 3 \<and>
   subtree_extent (TreeBuffer [1, 0, 10, 1, 3, 1, 3, 0]) = 10 \<and>
   \<not> within_unchanged [\<lparr>fromA = 5, toA = 6, fromB = 5, toB = 6\<rparr>] 0 10 \<and>
   \<not> reuse_sound (Tree [TreeBuffer [1, 0, 10, 1, 3, 1, 3, 0]] [0])
       [\<lparr>fromA = 5, toA = 6, fromB = 5, toB = 6\<rparr>] (TreeBuffer [1, 0, 10, 1, 3, 1, 3, 0]) 0"
proof -
  have a: "Tree_unchanged (Tree [Node 1 3 [] []] [0]) [\<lparr>fromA = 4, toA = 5, fromB = 4, toB = 5\<rparr>]
     = Tree [Node 1 3 [] []] [0] \<and>
   \<not> spec_reusable [\<lparr>fromA = 4, toA = 5, fromB = 4, toB = 5\<rparr>] 0 3 5"
    by (simp add: Tree_unchanged_def Tree_length_def js_index_def spec_reusable_def
        within_unchanged_def)
  have b: "Tree_unchanged (Tree [TreeBuffer [1, 0, 10, 1, 3, 1, 3, 0]] [0])
       [\<lparr>fromA = 5, toA = 6, fromB = 5, toB = 6\<rparr>]
     = Tree [TreeBuffer [1, 0, 10, 1, 3, 1, 3, 0]] [0]"
    by code_simp
  have c: "subtree_length (TreeBuffer [1, 0, 10, 1, 3, 1, 3, 0]) = Some 3"
    by code_simp
  have d: "subtree_extent (TreeBuffer [1, 0, 10, 1, 3, 1, 3, 0]) = 10"
    by code_simp
  have e: "\<not> within_unchanged [\<lparr>fromA = 5, toA = 6, fromB = 5, toB = 6\<rparr>] 0 10"
    by (simp add: within_unchanged_def)
  have f: "\<not> reuse_sound (Tree [TreeBuffer [1, 0, 10, 1, 3, 1, 3, 0]] [0])
       [\<lparr>fromA = 5, toA = 6, fromB = 5, toB = 6\<rparr>] (TreeBuffer [1, 0, 10, 1, 3, 1, 3, 0]) 0"
    unfolding reuse_sound_def d by (auto simp: Cons_eq_append_conv)
  from a b c d e f show ?thesis by blast
qed


section \<open>Positional resolution\<close>

text \<open>
  Claim C2 asks \<^verbatim>\<open>Tree.resolve(pos')\<close> for the context of the innermost tagged node whose
  range contains \<open>pos'\<close>. A buffer with two leaves, tag 1 over \<open>[0, 2)\<close> and tag 3 over
  \<open>[2, 4)\<close>, resolved at position 3: the loop of \<^verbatim>\<open>resolveIndex\<close> steps from index 0 to
  index 5, reads the fields of the second quad one place off, and gives up; the result is
  the context of the root (type -1) and not the one of the node with tag 3 at index 4.
\<close>

theorem Tree_resolve_misses_second_buffer_node:
  "Tree_resolve (Tree [TreeBuffer [1, 0, 2, 0, 3, 2, 4, 0]] [0]) 3
     = TreeContext (Tree [TreeBuffer [1, 0, 2, 0, 3, 2, 4, 0]] [0]) 0 None \<and>
   ctx_type (TreeContext (Tree [TreeBuffer [1, 0, 2, 0, 3, 2, 4, 0]] [0]) 0 None) = Some (- 1) \<and>
   ctx_type (BufferContext [1, 0, 2, 0, 3, 2, 4, 0] 0 4 None) = Some 3 \<and>
   ctx_start (BufferContext [1, 0, 2, 0, 3, 2, 4, 0] 0 4 None) = Some 2 \<and>
   ctx_end (BufferContext [1, 0, 2, 0, 3, 2, 4, 0] 0 4 None) = Some 4"
  by code_simp

text \<open>
  Three more results of \<^verbatim>\<open>Tree.resolve\<close>: in a buffer whose first node, tag 1 over \<open>[0, 4)\<close>,
  has the child tag 3 over \<open>[1, 3)\<close>, position 2 resolves to the outer node at index 0; a
  buffer placed at position 10 gives a context whose \<^verbatim>\<open>start\<close> is the offset 0 stored in the
  buffer; and a node with the even, untagged type 2 is returned as the context.
\<close>

lemma Tree_resolve_other_cases:
  "Tree_resolve (Tree [TreeBuffer [1, 0, 4, 1, 3, 1, 3, 0]] [0]) 2
     = BufferContext [1, 0, 4, 1, 3, 1, 3, 0] 0 0
         (Some (TreeContext (Tree [TreeBuffer [1, 0, 4, 1, 3, 1, 3, 0]] [0]) 0 None))"
  "ctx_start (Tree_resolve (Tree [TreeBuffer [1, 0, 2, 0]] [10]) 11) = Some 0"
  "ctx_type (Tree_resolve (Tree [Node 2 4 [] []] [0]) 2) = Some 2"
  by code_simp+


section \<open>The tokenizer's edge search\<close>

lemma rd_edge:
  assumes "table_ok data accEnd n" and "k < n"
  shows "rd data (Some (accEnd + int k + 2 * int k)) = Some (fst (edge_at data accEnd k))"
    and "rd data (Some (accEnd + int k + 2 * int k + 1)) = Some (fst (snd (edge_at data accEnd k)))"
    and "rd data (Some (accEnd + int k + 2 * int k + 2)) = Some (snd (snd (edge_at data accEnd k)))"
  using assms
  by (auto simp: table_ok_def rd_def js_index_def edge_at_def algebra_simps)

lemma edges_nth: "k < n \<Longrightarrow> edges data accEnd n ! k = edge_at data accEnd k"
  by (simp add: edges_def)

lemma length_edges: "length (edges data accEnd n) = n"
  by (simp add: edges_def)

lemma sorted_edges_nth:
  assumes "sorted_edges es" and "i < j" and "j < length es"
  shows "fst (snd (es ! i)) \<le> fst (es ! j)" and "fst (es ! i) \<le> fst (es ! j)"
  using assms by (simp_all add: sorted_edges_def sorted_wrt_iff_nth_less)

lemma linear_scan_NoEdge:
  assumes "\<And>k. k < length es \<Longrightarrow> \<not> edge_matches c (es ! k)"
  shows "linear_scan es c = NoEdge"
proof -
  have "List.find (edge_matches c) es = None"
    unfolding find_None_iff using assms by (metis in_set_conv_nth)
  then show ?thesis by (simp add: linear_scan_def)
qed

lemma linear_scan_Edge:
  assumes "k < length es" and "edge_matches c (es ! k)"
    and "\<And>j. j < k \<Longrightarrow> \<not> edge_matches c (es ! j)"
  shows "linear_scan es c = Edge (Some (snd (snd (es ! k))))"
proof -
  have "List.find (edge_matches c) es = Some (es ! k)"
    unfolding find_Some_iff using assms by blast
  then show ?thesis by (simp add: linear_scan_def)
qed

lemma findEdge_linear:
  assumes t: "table_ok data accEnd n" and s: "sorted_edges (edges data accEnd n)"
    and "0 \<le> low" and "high \<le> int n"
    and "\<And>k. k < n \<Longrightarrow> int k < low \<Longrightarrow> fst (snd (edge_at data accEnd k)) \<le> c"
    and "\<And>k. k < n \<Longrightarrow> high \<le> int k \<Longrightarrow> c < fst (edge_at data accEnd k)"
  shows "findEdge data (Some accEnd) (Some c) low high = linear_scan (edges data accEnd n) c"
  using assms(3-)
proof (induction "nat (high - low)" arbitrary: low high rule: less_induct)
  case less
  let ?es = "edges data accEnd n"
  show ?case
  proof (cases "low < high")
    case False
    have "\<not> edge_matches c (?es ! k)" if "k < length ?es" for k
    proof -
      from that have k: "k < n" by (simp add: length_edges)
      then consider "int k < low" | "high \<le> int k" using False by linarith
      then show ?thesis
        using less.prems(3)[OF k] less.prems(4)[OF k] k
        by cases (auto simp: edge_matches_def edges_nth)
    qed
    then have "linear_scan ?es c = NoEdge"
      by (rule linear_scan_NoEdge)
    with False show ?thesis by (subst findEdge.simps) simp
  next
    case True
    define mid where "mid = (low + high) div 2"
    define m where "m = nat mid"
    have mid: "low \<le> mid" "mid < high" "0 \<le> mid"
      using True less.prems(1) by (auto simp: mid_def)
    have m: "m < n" "int m = mid"
      using mid less.prems(2) by (auto simp: m_def)
    note r = rd_edge[OF t m(1), unfolded m(2)]
    have step: "findEdge data (Some accEnd) (Some c) low high =
       (if c < fst (edge_at data accEnd m) then findEdge data (Some accEnd) (Some c) low mid
        else if c \<ge> fst (snd (edge_at data accEnd m)) then findEdge data (Some accEnd) (Some c) (mid + 1) high
        else Edge (Some (snd (snd (edge_at data accEnd m)))))"
      using True r
      by (subst findEdge.simps) (simp add: Let_def mid_def [symmetric] num_lt_def num_ge_def add.assoc)
    show ?thesis
    proof (cases "c < fst (edge_at data accEnd m)")
      case left: True
      have "findEdge data (Some accEnd) (Some c) low mid = linear_scan ?es c"
      proof (rule less.hyps)
        show "nat (mid - low) < nat (high - low)" using mid by simp
        show "0 \<le> low" by fact
        show "mid \<le> int n" using mid less.prems(2) by simp
        show "fst (snd (edge_at data accEnd k)) \<le> c" if "k < n" "int k < low" for k
          using less.prems(3) that by simp
        show "c < fst (edge_at data accEnd k)" if "k < n" "mid \<le> int k" for k
        proof (cases "k = m")
          case True
          then show ?thesis using left by simp
        next
          case False
          with that m have "m < k" by simp
          from sorted_edges_nth(2)[OF s this] that(1)
          have "fst (edge_at data accEnd m) \<le> fst (edge_at data accEnd k)"
            using m(1) by (simp add: length_edges edges_nth)
          with left show ?thesis by simp
        qed
      qed
      with step left show ?thesis by simp
    next
      case nl: False
      show ?thesis
      proof (cases "c \<ge> fst (snd (edge_at data accEnd m))")
        case right: True
        have "findEdge data (Some accEnd) (Some c) (mid + 1) high = linear_scan ?es c"
        proof (rule less.hyps)
          show "nat (high - (mid + 1)) < nat (high - low)" using mid by simp
          show "0 \<le> mid + 1" using mid by simp
          show "high \<le> int n" by fact
          show "c < fst (edge_at data accEnd k)" if "k < n" "high \<le> int k" for k
            using less.prems(4) that by simp
          show "fst (snd (edge_at data accEnd k)) \<le> c" if "k < n" "int k < mid + 1" for k
          proof (cases "k = m")
            case True
            then show ?thesis using right by simp
          next
            case False
            with that m have km: "k < m" by simp
            from sorted_edges_nth(1)[OF s km] m(1)
            have "fst (snd (edge_at data accEnd k)) \<le> fst (edge_at data accEnd m)"
              using that(1) by (simp add: length_edges edges_nth)
            with nl right show ?thesis by simp
          qed
        qed
        with step nl right show ?thesis by simp
      next
        case nr: False
        have "linear_scan ?es c = Edge (Some (snd (snd (?es ! m))))"
        proof (rule linear_scan_Edge)
          show "m < length ?es" using m by (simp add: length_edges)
          show "edge_matches c (?es ! m)"
            using nl nr m by (simp add: edge_matches_def edges_nth)
          show "\<not> edge_matches c (?es ! j)" if "j < m" for j
          proof -
            from sorted_edges_nth(1)[OF s that] m(1) that
            have "fst (snd (edge_at data accEnd j)) \<le> fst (edge_at data accEnd m)"
              by (simp add: length_edges edges_nth)
            with nl that m(1) show ?thesis
              by (simp add: edge_matches_def edges_nth)
          qed
        qed
        with step nl nr m show ?thesis by (simp add: edges_nth)
      qed
    qed
  qed
qed

lemma nxt_upd_token [simp]: "nxt (upd_token f s) = nxt s"
  by (simp add: upd_token_def split: option.splits)

lemma nxt_accept_loop: "nxt (accept_loop data allows overrides groupMask i accEnd inp) = nxt inp"
proof (induction data allows overrides groupMask i accEnd inp rule: accept_loop.induct)
  case (1 data allows overrides groupMask i accEnd inp)
  show ?case
    by (subst accept_loop.simps) (auto simp: 1 acceptToken_def split: option.splits)
qed

lemma edge_match_unique:
  assumes s: "sorted_edges es" and "i < length es" "j < length es"
    and "edge_matches c (es ! i)" "edge_matches c (es ! j)"
  shows "i = j"
proof (rule ccontr)
  assume "i \<noteq> j"
  then consider "i < j" | "j < i" by linarith
  then show False
  proof cases
    case 1
    from sorted_edges_nth(1)[OF s 1 assms(3)] assms(4,5) show False
      by (simp add: edge_matches_def)
  next
    case 2
    from sorted_edges_nth(1)[OF s 2 assms(2)] assms(4,5) show False
      by (simp add: edge_matches_def)
  qed
qed

lemma linear_scan_Edge_iff:
  assumes s: "sorted_edges es"
  shows "linear_scan es c = Edge t \<longleftrightarrow> (\<exists>e \<in> set es. edge_matches c e \<and> t = Some (snd (snd e)))"
proof
  assume "linear_scan es c = Edge t"
  then obtain e where "List.find (edge_matches c) es = Some e" "t = Some (snd (snd e))"
    by (auto simp: linear_scan_def split: option.splits)
  then show "\<exists>e \<in> set es. edge_matches c e \<and> t = Some (snd (snd e))"
    by (auto simp: find_Some_iff)
next
  assume "\<exists>e \<in> set es. edge_matches c e \<and> t = Some (snd (snd e))"
  then obtain k where k: "k < length es" "edge_matches c (es ! k)" "t = Some (snd (snd (es ! k)))"
    by (auto simp: in_set_conv_nth)
  have "\<not> edge_matches c (es ! j)" if "j < k" for j
    using edge_match_unique[OF s _ k(1) _ k(2), of j] that k(1) by auto
  from linear_scan_Edge[OF k(1,2) this] k(3) show "linear_scan es c = Edge t"
    by simp
qed


section \<open>Look-ahead across a gap\<close>

text \<open>
  Claim C4 says that after each \<^verbatim>\<open>peek\<close> or \<^verbatim>\<open>advance\<close> the look-ahead of the active token
  is the highest input position inspected so far. Over the text \<^verbatim>\<open>ab###cd\<close> with the gap
  \<open>[2, 5)\<close>, from position 1: \<^verbatim>\<open>advance()\<close> moves to position 2, records 2, and then
  \<^verbatim>\<open>readNext\<close> jumps over the gap to position 5 and loads the \<^verbatim>\<open>c\<close> found there into
  \<^verbatim>\<open>next\<close>; the look-ahead stays 2. \<^verbatim>\<open>peek(1)\<close> from the same position returns the same
  \<^verbatim>\<open>c\<close> and records 5.
\<close>

theorem advance_over_gap_misses_lookAhead:
  "(let inp = \<lparr>doc = [97, 98, 35, 35, 35, 99, 100], chunkLen = (\<lambda>_. 100)\<rparr>;
        s0 = reset (InputStream_new inp 0 7 (Some [\<lparr>gap_from = 2, gap_to = 5\<rparr>]) new_CachedToken)
               0 (Some new_CachedToken);
        s1 = snd (advance s0 1);
        s2 = snd (advance s1 1);
        p = peek s1 1
    in pos s1 = 1 \<and> lookAhead (the_token s1) = 1 \<and>
       fst (advance s1 1) = Some 99 \<and> pos s2 = 5 \<and> lookAhead (the_token s2) = 2 \<and>
       fst p = Some 99 \<and> lookAhead (the_token (snd p)) = 5)"
  by code_simp

section \<open>InputStream: the invariant of a well-formed stream\<close>

lemma js_slice_take: "0 \<le> k \<Longrightarrow> js_slice c 0 k = take (nat k) c"
  by (auto simp: js_slice_def Let_def min_def)

lemma js_slice_from_drop: "0 \<le> k \<Longrightarrow> js_slice_from c k = drop (nat k) c"
  by (auto simp: js_slice_from_def js_slice_def Let_def min_def)

lemma js_slice_sub:
  "0 \<le> a \<Longrightarrow> a \<le> b \<Longrightarrow> b \<le> int (length c) \<Longrightarrow> js_slice c a b = take (nat (b - a)) (drop (nat a) c)"
  by (auto simp: js_slice_def Let_def min_def)

lemma drop_take_doc:
  assumes "c = take (length c) (drop p D)" and "k \<le> length c"
  shows "drop k c = take (length c - k) (drop (p + k) D)"
proof -
  have "drop k c = drop k (take (length c) (drop p D))"
    using assms(1) by simp
  also have "\<dots> = take (length c - k) (drop (p + k) D)"
    by (simp add: drop_take add.commute)
  finally show ?thesis .
qed

lemma take_take_doc:
  assumes "c = take (length c) (drop p D)" and "k \<le> length c"
  shows "take k c = take k (drop p D)"
proof -
  have "take k c = take k (take (length c) (drop p D))"
    using assms(1) by simp
  also have "\<dots> = take k (drop p D)"
    using assms(2) by (simp add: min_def)
  finally show ?thesis .
qed

lemma in_gap_simps [simp]:
  "in_gap [] p = False"
  "in_gap (g # gs) p = ((gap_from g \<le> p \<and> p < gap_to g) \<or> in_gap gs p)"
  by (auto simp: in_gap_def)

lemma removeGaps_loop_inv:
  assumes "wf_gaps gs"
    and "pos s = from'" and "chunkPos s = from'" and "to' = from' + int (length (chunk s))"
    and "chunk s \<noteq> []" and "0 \<le> from'"
    and "chunk s = take (length (chunk s)) (drop (nat from') D)"
  shows "case removeGaps_loop gs from' to' s of
           Done s' \<Rightarrow>
             frame s s' \<and> chunk s' \<noteq> [] \<and> pos s' = chunkPos s' \<and> from' \<le> chunkPos s' \<and>
             chunkPos s' + int (length (chunk s')) \<le> to' \<and>
             chunk s' = take (length (chunk s')) (drop (nat (chunkPos s')) D) \<and>
             (\<forall>g \<in> set gs. gap_to g \<le> chunkPos s' \<or>
                chunkPos s' + int (length (chunk s')) \<le> gap_from g) \<and>
             (\<not> in_gap gs from' \<longrightarrow> pos s' = from')
         | Refetch s' \<Rightarrow>
             frame s s' \<and> chunk s' = [] \<and> pos s' = chunkPos s' \<and> from' < pos s' \<and>
             chunk2 s' = chunk2 s \<and> in_gap gs from'"
  using assms
proof (induction gs arbitrary: from' s)
  case Nil
  then show ?case by (simp add: frame_def same_stream_def)
next
  case (Cons g gs)
  have wf: "wf_gaps gs" and ge: "\<forall>g' \<in> set gs. gap_to g \<le> gap_from g'" and gg: "gap_from g \<le> gap_to g"
    using Cons.prems(1) by (auto simp: wf_gaps_def)
  let ?n = "int (length (chunk s))"
  show ?case
  proof (cases "gap_from g \<ge> to'")
    case True
    have "\<forall>g' \<in> set (g # gs). chunkPos s + ?n \<le> gap_from g'"
      using True ge gg Cons.prems(3,4) by force
    with True Cons.prems show ?thesis
      by (simp add: frame_def same_stream_def)
  next
    case lt: False
    show ?thesis
    proof (cases "gap_to g > from'")
      case False
      from Cons.IH[OF wf Cons.prems(2-7)]
      have ih: "case removeGaps_loop gs from' to' s of
           Done s' \<Rightarrow>
             frame s s' \<and> chunk s' \<noteq> [] \<and> pos s' = chunkPos s' \<and> from' \<le> chunkPos s' \<and>
             chunkPos s' + int (length (chunk s')) \<le> to' \<and>
             chunk s' = take (length (chunk s')) (drop (nat (chunkPos s')) D) \<and>
             (\<forall>g \<in> set gs. gap_to g \<le> chunkPos s' \<or>
                chunkPos s' + int (length (chunk s')) \<le> gap_from g) \<and>
             (\<not> in_gap gs from' \<longrightarrow> pos s' = from')
         | Refetch s' \<Rightarrow>
             frame s s' \<and> chunk s' = [] \<and> pos s' = chunkPos s' \<and> from' < pos s' \<and>
             chunk2 s' = chunk2 s \<and> in_gap gs from'" .
      have eq: "removeGaps_loop (g # gs) from' to' s = removeGaps_loop gs from' to' s"
        using lt False by simp
      show ?thesis
        unfolding eq using ih False
        by (cases "removeGaps_loop gs from' to' s") auto
    next
      case gt: True
      show ?thesis
      proof (cases "from' < gap_from g")
        case True
        define k where "k = gap_from g - from'"
        have k: "0 < k" "k < ?n"
          using True lt Cons.prems(4) by (auto simp: k_def)
        have eq: "removeGaps_loop (g # gs) from' to' s = Done (s\<lparr>chunk := take (nat k) (chunk s)\<rparr>)"
          using lt gt True k by (simp add: js_slice_take k_def)
        have len: "int (length (take (nat k) (chunk s))) = k"
          using k by simp
        have c: "take (nat k) (chunk s) = take (nat k) (drop (nat from') D)"
          using take_take_doc[OF Cons.prems(7), of "nat k"] k by simp
        have gf: "\<forall>g' \<in> set (g # gs). from' + k \<le> gap_from g'"
          using ge gg by (force simp: k_def)
        show ?thesis
          unfolding eq using k len c gf Cons.prems(2-6)
          by (simp add: frame_def same_stream_def del: length_take) (use k in auto)
      next
        case nb: False
        show ?thesis
        proof (cases "to' > gap_to g")
          case False
          have eq: "removeGaps_loop (g # gs) from' to' s
              = Refetch (s\<lparr>pos := gap_to g, chunkPos := gap_to g, chunk := []\<rparr>)"
            using lt gt nb False by (simp add: Let_def)
          show ?thesis
            unfolding eq using gt nb by (simp add: frame_def same_stream_def)
        next
          case True
          define k where "k = gap_to g - from'"
          have k: "0 < k" "k < ?n"
            using True gt Cons.prems(4) by (auto simp: k_def)
          define s1 where "s1 = s\<lparr>pos := gap_to g, chunkPos := gap_to g, chunk := drop (nat k) (chunk s)\<rparr>"
          have eq: "removeGaps_loop (g # gs) from' to' s = removeGaps_loop gs (gap_to g) to' s1"
            using lt gt nb True k by (simp add: Let_def js_slice_from_drop k_def s1_def)
          have p1: "pos s1 = gap_to g" "chunkPos s1 = gap_to g" by (simp_all add: s1_def)
          have p2: "to' = gap_to g + int (length (chunk s1))"
            using k Cons.prems(4) by (simp add: s1_def k_def)
          have p3: "chunk s1 \<noteq> []" using k by (simp add: s1_def)
          have p4: "0 \<le> gap_to g" using gt Cons.prems(6) by simp
          have "drop (nat k) (chunk s) = take (length (chunk s) - nat k) (drop (nat from' + nat k) D)"
            using drop_take_doc[OF Cons.prems(7), of "nat k"] k by simp
          moreover have "nat from' + nat k = nat (gap_to g)"
            using k Cons.prems(6) by (simp add: k_def)
          ultimately have X: "drop (nat k) (chunk s)
              = take (length (chunk s) - nat k) (drop (nat (gap_to g)) D)"
            by simp
          have c1: "chunk s1 = drop (nat k) (chunk s)"
            and l1: "length (chunk s1) = length (chunk s) - nat k"
            by (simp_all add: s1_def)
          have p5: "chunk s1 = take (length (chunk s1)) (drop (nat (gap_to g)) D)"
            unfolding l1 unfolding c1 by (rule X)
          from Cons.IH[OF wf p1 p2 p3 p4 p5]
          have ih: "case removeGaps_loop gs (gap_to g) to' s1 of
             Done s' \<Rightarrow>
               frame s1 s' \<and> chunk s' \<noteq> [] \<and> pos s' = chunkPos s' \<and> gap_to g \<le> chunkPos s' \<and>
               chunkPos s' + int (length (chunk s')) \<le> to' \<and>
               chunk s' = take (length (chunk s')) (drop (nat (chunkPos s')) D) \<and>
               (\<forall>g \<in> set gs. gap_to g \<le> chunkPos s' \<or>
                  chunkPos s' + int (length (chunk s')) \<le> gap_from g) \<and>
               (\<not> in_gap gs (gap_to g) \<longrightarrow> pos s' = gap_to g)
           | Refetch s' \<Rightarrow>
               frame s1 s' \<and> chunk s' = [] \<and> pos s' = chunkPos s' \<and> gap_to g < pos s' \<and>
               chunk2 s' = chunk2 s1 \<and> in_gap gs (gap_to g)" .
          have fr: "frame s1 s' \<Longrightarrow> frame s s'" for s'
            by (simp add: frame_def same_stream_def s1_def)
          show ?thesis
            unfolding eq using ih gt fr nb
            by (cases "removeGaps_loop gs (gap_to g) to' s1") (auto simp: s1_def)
        qed
      qed
    qed
  qed
qed

lemma chunk_ok_same:
  "same_stream s s' \<Longrightarrow> chunk_ok s' p c = chunk_ok s p c"
  by (simp add: chunk_ok_def same_stream_def gap_list_def)

lemma Input_chunk_nonempty:
  "0 \<le> p \<Longrightarrow> p < int (length (doc inp)) \<Longrightarrow> Input_chunk inp p \<noteq> []"
  by (auto simp: Input_chunk_def)

lemma Input_chunk_content:
  "Input_chunk inp p = take (length (Input_chunk inp p)) (drop (nat p) (doc inp))"
  by (simp add: Input_chunk_def min_def)

lemma getChunk_inv:
  assumes "fetch_pre s"
  shows "fetch_post s (fst (getChunk s)) (snd (getChunk s))"
  using assms
proof (induction "nat (end_pos s - pos s)" arbitrary: s rule: less_induct)
  case less
  note pre = less.prems [unfolded fetch_pre_def]
  show ?case
  proof (cases "pos s \<ge> chunk2Pos s \<and> pos s < chunk2Pos s + int (length (chunk2 s))")
    case True
    then have ne: "chunk2 s \<noteq> []" by auto
    have eq: "getChunk s = (True, s\<lparr>chunk := chunk2 s, chunkPos := chunk2Pos s,
                 chunk2 := chunk s, chunk2Pos := chunkPos s,
                 chunkOff := pos s - chunk2Pos s\<rparr>)"
      using True by (subst getChunk.simps) simp
    show ?thesis
      unfolding eq using pre True
      by (simp add: fetch_post_def same_stream_def chunk_ok_def gap_list_def)
  next
    case nswap: False
    show ?thesis
    proof (cases "pos s \<ge> end_pos s")
      case True
      have eq: "getChunk s = (False, s\<lparr>nxt := Some (- 1), chunk := [], chunkOff := 0\<rparr>)"
        using True by (subst getChunk.simps, subst if_not_P [OF nswap]) simp
      show ?thesis
        unfolding eq using pre True
        by (simp add: fetch_post_def same_stream_def chunk_ok_def gap_list_def)
    next
      case lt: False
      define nextChunk where "nextChunk = Input_chunk (input s) (pos s)"
      define c where "c = (if pos s + int (length nextChunk) > end_pos s
                           then js_slice nextChunk 0 (end_pos s - pos s) else nextChunk)"
      define s1 where "s1 = s\<lparr>chunk2 := chunk s, chunk2Pos := chunkPos s, chunk := c,
                    chunkPos := pos s, chunkOff := 0\<rparr>"
      have p0: "0 \<le> pos s" "pos s < int (length (doc (input s)))"
        using pre lt by (auto simp: config_ok_def)
      have nne: "nextChunk \<noteq> []"
        unfolding nextChunk_def using p0 by (rule Input_chunk_nonempty)
      have ncont: "nextChunk = take (length nextChunk) (drop (nat (pos s)) (doc (input s)))"
        unfolding nextChunk_def by (rule Input_chunk_content)
      have cne: "c \<noteq> []" and cend: "pos s + int (length c) \<le> end_pos s"
        and ccont: "c = take (length c) (drop (nat (pos s)) (doc (input s)))"
      proof -
        show "c \<noteq> []" using nne lt by (auto simp: c_def js_slice_take)
        show "pos s + int (length c) \<le> end_pos s"
          using lt by (auto simp: c_def js_slice_take)
        show "c = take (length c) (drop (nat (pos s)) (doc (input s)))"
        proof (cases "pos s + int (length nextChunk) > end_pos s")
          case True
          then have "c = take (nat (end_pos s - pos s)) nextChunk"
            using lt by (simp add: c_def js_slice_take)
          moreover have "take (nat (end_pos s - pos s)) nextChunk
              = take (nat (end_pos s - pos s)) (drop (nat (pos s)) (doc (input s)))"
            using take_take_doc[OF ncont, of "nat (end_pos s - pos s)"] True by simp
          moreover have "length c = nat (end_pos s - pos s)"
            using True lt by (simp add: c_def js_slice_take)
          ultimately show ?thesis by simp
        next
          case False
          then show ?thesis using ncont by (simp add: c_def)
        qed
      qed
      show ?thesis
      proof (cases "gaps s")
        case None
        have eq: "getChunk s = (True, s1)"
          using lt None
          by (subst getChunk.simps, subst if_not_P [OF nswap])
            (simp add: Let_def s1_def c_def nextChunk_def)
        show ?thesis
          unfolding eq using pre cne cend ccont None
          by (simp add: fetch_post_def same_stream_def chunk_ok_def gap_list_def s1_def)
      next
        case (Some gs)
        have eq: "getChunk s =
           (case removeGaps_loop gs (pos s1) (pos s1 + int (length (chunk s1))) s1 of
              Done s' \<Rightarrow> (True, s')
            | Refetch s' \<Rightarrow> getChunk s')"
          using lt Some
          by (subst getChunk.simps, subst if_not_P [OF nswap])
            (simp add: Let_def s1_def c_def nextChunk_def removeGapsFromChunk.simps)
        have wf: "wf_gaps gs"
          using pre Some by (simp add: config_ok_def gap_list_def)
        have l: "case removeGaps_loop gs (pos s) (pos s + int (length c)) s1 of
           Done s' \<Rightarrow>
             frame s1 s' \<and> chunk s' \<noteq> [] \<and> pos s' = chunkPos s' \<and> pos s \<le> chunkPos s' \<and>
             chunkPos s' + int (length (chunk s')) \<le> pos s + int (length c) \<and>
             chunk s' = take (length (chunk s')) (drop (nat (chunkPos s')) (doc (input s))) \<and>
             (\<forall>g \<in> set gs. gap_to g \<le> chunkPos s' \<or>
                chunkPos s' + int (length (chunk s')) \<le> gap_from g) \<and>
             (\<not> in_gap gs (pos s) \<longrightarrow> pos s' = pos s)
         | Refetch s' \<Rightarrow>
             frame s1 s' \<and> chunk s' = [] \<and> pos s' = chunkPos s' \<and> pos s < pos s' \<and>
             chunk2 s' = chunk2 s1 \<and> in_gap gs (pos s)"
          using removeGaps_loop_inv[OF wf, of s1 "pos s" "pos s + int (length c)" "doc (input s)"]
            cne ccont p0 by (simp add: s1_def)
        have s1: "pos s1 = pos s" "chunk s1 = c" by (simp_all add: s1_def)
        show ?thesis
        proof (cases "removeGaps_loop gs (pos s) (pos s + int (length c)) s1")
          case (Done s')
          with l have d: "frame s1 s'" "chunk s' \<noteq> []" "pos s' = chunkPos s'" "pos s \<le> chunkPos s'"
             "chunkPos s' + int (length (chunk s')) \<le> pos s + int (length c)"
             "chunk s' = take (length (chunk s')) (drop (nat (chunkPos s')) (doc (input s)))"
             "\<forall>g \<in> set gs. gap_to g \<le> chunkPos s' \<or>
                chunkPos s' + int (length (chunk s')) \<le> gap_from g"
             "\<not> in_gap gs (pos s) \<longrightarrow> pos s' = pos s"
            by auto
          have g: "getChunk s = (True, s')"
            unfolding eq s1 using Done by simp
          have f: "same_stream s s'" "token s' = token s" "nullToken s' = nullToken s"
            "chunk2 s' = chunk s" "chunk2Pos s' = chunkPos s" "chunkOff s' = 0" "nxt s' = nxt s"
            using d(1) by (simp_all add: frame_def same_stream_def s1_def)
          have c1: "chunk_ok s' (chunkPos s') (chunk s')"
            unfolding chunk_ok_same[OF f(1)]
            using d pre cend Some f(1) by (simp add: chunk_ok_def gap_list_def same_stream_def)
          have c2: "chunk_ok s' (chunk2Pos s') (chunk2 s')"
            unfolding chunk_ok_same[OF f(1)] f using pre by simp
          show ?thesis
            unfolding g using f c1 c2 d(2,3,4,8) Some
            by (simp add: fetch_post_def gap_list_def)
        next
          case (Refetch s')
          with l have r: "frame s1 s'" "chunk s' = []" "pos s' = chunkPos s'" "pos s < pos s'"
            "in_gap (gap_list s) (pos s)"
            using Some by (simp_all add: gap_list_def)
          have g: "getChunk s = getChunk s'"
            unfolding eq s1 using Refetch by simp
          have f: "same_stream s s'" "token s' = token s" "nullToken s' = nullToken s"
            "chunk2 s' = chunk s" "chunk2Pos s' = chunkPos s" "chunkOff s' = 0" "nxt s' = nxt s"
            using r(1) by (simp_all add: frame_def same_stream_def s1_def)
          have e: "end_pos s' = end_pos s" "start s' = start s" "gaps s' = gaps s"
            using f(1) by (simp_all add: same_stream_def)
          have pre': "fetch_pre s'"
            unfolding fetch_pre_def chunk_ok_same[OF f(1)] f(4,5)
            using pre r f(1) by (simp add: config_ok_def gap_list_def same_stream_def chunk_ok_def)
          have m: "nat (end_pos s' - pos s') < nat (end_pos s - pos s)"
            using r(4) lt e by simp
          from less.hyps[OF m pre']
          have ih: "fetch_post s' (fst (getChunk s')) (snd (getChunk s'))" .
          have ss: "same_stream s' x \<Longrightarrow> same_stream s x" for x
            using f(1) by (simp add: same_stream_def)
          show ?thesis
            unfolding g using ih f(2,3,7) r(4,5) e ss Some
            by (auto simp: fetch_post_def split: if_splits)
        qed
      qed
    qed
  qed
qed

lemma config_ok_same: "same_stream s s' \<Longrightarrow> config_ok s' = config_ok s"
  by (simp add: config_ok_def same_stream_def gap_list_def)

lemma readNext_inv:
  assumes "read_pre s"
  shows "stream_inv (readNext s) \<and> moved s (readNext s) \<and>
         (\<not> in_gap (gap_list s) (pos s) \<or> chunkOff s < int (length (chunk s))
            \<longrightarrow> pos (readNext s) = pos s)"
proof (cases "chunkOff s = int (length (chunk s))")
  case True
  from assms have pre: "fetch_pre s" by (simp add: read_pre_def)
  obtain b s' where g: "getChunk s = (b, s')" by (cases "getChunk s")
  from getChunk_inv[OF pre] g have post: "fetch_post s b s'" by simp
  then have ss: "same_stream s s'" by (simp add: fetch_post_def)
  have st: "start s \<le> pos s" "config_ok s" using pre by (simp_all add: fetch_pre_def)
  show ?thesis
  proof (cases b)
    case True
    have r: "readNext s = s'\<lparr>nxt := charCodeAt (chunk s') (chunkOff s')\<rparr>"
      using \<open>chunkOff s = int (length (chunk s))\<close> g True by (simp add: readNext_def)
    have "same_stream s' (s'\<lparr>nxt := charCodeAt (chunk s') (chunkOff s')\<rparr>)"
      by (simp add: same_stream_def)
    note ck = chunk_ok_same[OF this] config_ok_same[OF this]
    show ?thesis
      unfolding r stream_inv_def ck
      using post True st config_ok_same[OF ss] ss \<open>chunkOff s = int (length (chunk s))\<close>
      by (auto simp: fetch_post_def cursor_ok_def moved_def same_stream_def)
  next
    case False
    have r: "readNext s = s'"
      using \<open>chunkOff s = int (length (chunk s))\<close> g False by (simp add: readNext_def)
    show ?thesis
      unfolding r stream_inv_def
      using post False st config_ok_same[OF ss] ss \<open>chunkOff s = int (length (chunk s))\<close>
      by (auto simp: fetch_post_def cursor_ok_def moved_def same_stream_def)
  qed
next
  case False
  have r: "readNext s = s\<lparr>nxt := charCodeAt (chunk s) (chunkOff s)\<rparr>"
    using False by (simp add: readNext_def)
  have "same_stream s (s\<lparr>nxt := charCodeAt (chunk s) (chunkOff s)\<rparr>)"
    by (simp add: same_stream_def)
  note ck = chunk_ok_same[OF this] config_ok_same[OF this]
  show ?thesis
    unfolding r stream_inv_def ck
    using assms False
    by (auto simp: read_pre_def fetch_pre_def cursor_ok_def moved_def same_stream_def)
qed

lemma upd_token_fields [simp]:
  "chunk (upd_token f s) = chunk s" "chunkOff (upd_token f s) = chunkOff s"
  "chunkPos (upd_token f s) = chunkPos s" "chunk2 (upd_token f s) = chunk2 s"
  "chunk2Pos (upd_token f s) = chunk2Pos s" "gaps (upd_token f s) = gaps s"
  "pos (upd_token f s) = pos s" "input (upd_token f s) = input s"
  "start (upd_token f s) = start s" "end_pos (upd_token f s) = end_pos s"
  by (simp_all add: upd_token_def split: option.splits)

lemma note_lookAhead_fields [simp]:
  "chunk (note_lookAhead p s) = chunk s" "chunkOff (note_lookAhead p s) = chunkOff s"
  "chunkPos (note_lookAhead p s) = chunkPos s" "chunk2 (note_lookAhead p s) = chunk2 s"
  "chunk2Pos (note_lookAhead p s) = chunk2Pos s" "gaps (note_lookAhead p s) = gaps s"
  "pos (note_lookAhead p s) = pos s" "input (note_lookAhead p s) = input s"
  "start (note_lookAhead p s) = start s" "end_pos (note_lookAhead p s) = end_pos s"
  "nxt (note_lookAhead p s) = nxt s"
  by (simp_all add: note_lookAhead_def)

lemma stream_inv_fields:
  assumes "chunk s' = chunk s" "chunkOff s' = chunkOff s" "chunkPos s' = chunkPos s"
    "chunk2 s' = chunk2 s" "chunk2Pos s' = chunk2Pos s" "gaps s' = gaps s" "pos s' = pos s"
    "input s' = input s" "start s' = start s" "end_pos s' = end_pos s" "nxt s' = nxt s"
  shows "stream_inv s' = stream_inv s"
  using assms
  by (simp add: stream_inv_def config_ok_def chunk_ok_def cursor_ok_def gap_list_def)

lemma stream_inv_upd_token [simp]: "stream_inv (upd_token f s) = stream_inv s"
  by (rule stream_inv_fields) simp_all

lemma stream_inv_note_lookAhead [simp]: "stream_inv (note_lookAhead p s) = stream_inv s"
  by (rule stream_inv_fields) simp_all

lemma stream_inv_peek: "stream_inv (snd (peek s k)) = stream_inv s"
  by (simp add: peek_def Let_def)

lemma stream_inv_acceptToken: "stream_inv (acceptToken s tok endOffset) = stream_inv s"
  by (simp add: acceptToken_def)

lemma charCodeAt_nonneg: "charCodeAt c i = Some x \<Longrightarrow> 0 \<le> x"
  by (auto simp: charCodeAt_def js_index_def split: if_splits)

lemma stream_inv_at_end: "stream_inv s \<Longrightarrow> end_pos s \<le> pos s \<Longrightarrow> nxt s = Some (- 1)"
  by (auto simp: stream_inv_def cursor_ok_def chunk_ok_def split: if_splits)

lemma stream_inv_has_next:
  assumes "stream_inv s" and "\<not> opt_lt (nxt s) 0"
  shows "0 \<le> chunkOff s \<and> chunkOff s < int (length (chunk s)) \<and> pos s = chunkPos s + chunkOff s"
  using assms
  by (auto simp: stream_inv_def cursor_ok_def opt_lt_def split: if_splits)

lemma advance_step_inv:
  assumes "stream_inv s" and "\<not> opt_lt (nxt s) 0"
  defines "s' \<equiv> readNext (note_lookAhead (pos s + 1) (s\<lparr>chunkOff := chunkOff s + 1, pos := pos s + 1\<rparr>))"
  shows "stream_inv s' \<and> same_stream s s' \<and> pos s < pos s'"
proof -
  let ?m = "note_lookAhead (pos s + 1) (s\<lparr>chunkOff := chunkOff s + 1, pos := pos s + 1\<rparr>)"
  from stream_inv_has_next[OF assms(1,2)]
  have c: "0 \<le> chunkOff s" "chunkOff s < int (length (chunk s))" "pos s = chunkPos s + chunkOff s"
    by simp_all
  have "read_pre ?m"
    using assms(1) c
    by (simp add: read_pre_def fetch_pre_def stream_inv_def config_ok_def chunk_ok_def gap_list_def)
  from readNext_inv[OF this] show ?thesis
    by (simp add: s'_def moved_def same_stream_def)
qed

lemma same_stream_refl [simp]: "same_stream s s"
  by (simp add: same_stream_def)

lemma same_stream_trans: "same_stream a b \<Longrightarrow> same_stream b c \<Longrightarrow> same_stream a c"
  by (simp add: same_stream_def)

lemma advance_loop_inv:
  "stream_inv s \<Longrightarrow>
   stream_inv (snd (advance_loop k s)) \<and> same_stream s (snd (advance_loop k s)) \<and>
   pos s \<le> pos (snd (advance_loop k s))"
proof (induction k arbitrary: s)
  case 0
  then show ?case by simp
next
  case (Suc k)
  show ?case
  proof (cases "opt_lt (nxt s) 0")
    case True
    with Suc.prems show ?thesis by simp
  next
    case False
    let ?s' = "readNext (note_lookAhead (pos s + 1) (s\<lparr>chunkOff := chunkOff s + 1, pos := pos s + 1\<rparr>))"
    from advance_step_inv[OF Suc.prems False]
    have st: "stream_inv ?s'" "same_stream s ?s'" "pos s < pos ?s'" by simp_all
    from Suc.IH[OF st(1)] st(2,3) False show ?thesis
      by (auto intro: same_stream_trans)
  qed
qed

lemma advance_inv:
  "stream_inv s \<Longrightarrow>
   stream_inv (snd (advance s n)) \<and> same_stream s (snd (advance s n)) \<and>
   pos s \<le> pos (snd (advance s n))"
  unfolding advance_def by (rule advance_loop_inv)

lemma advance_at_end:
  assumes "stream_inv s" and "end_pos s \<le> pos s"
  shows "advance s n = (Some (- 1), s)"
proof -
  have n: "nxt s = Some (- 1)" using assms by (rule stream_inv_at_end)
  show ?thesis
    by (cases "nat n") (simp_all add: advance_def n opt_lt_def)
qed

lemma reset_inv:
  assumes "stream_inv s" and "start s \<le> p"
  shows "stream_inv (reset s p tok) \<and> same_stream s (reset s p tok) \<and> p \<le> pos (reset s p tok) \<and>
         (\<not> in_gap (gap_list s) p \<longrightarrow> pos (reset s p tok) = p)"
proof -
  define s1 where "s1 = (case tok of
                  Some t \<Rightarrow> s\<lparr>token := Some (t\<lparr>tok_start := p, lookAhead := p,
                                               tok_value := - 1, extended := - 1\<rparr>)\<rparr>
                | None \<Rightarrow> s\<lparr>token := None\<rparr>)"
  have f: "chunk s1 = chunk s" "chunkOff s1 = chunkOff s" "chunkPos s1 = chunkPos s"
    "chunk2 s1 = chunk2 s" "chunk2Pos s1 = chunk2Pos s" "gaps s1 = gaps s" "pos s1 = pos s"
    "input s1 = input s" "start s1 = start s" "end_pos s1 = end_pos s" "nxt s1 = nxt s"
    by (simp_all add: s1_def split: option.splits)
  have i1: "stream_inv s1"
    using stream_inv_fields[OF f] assms(1) by simp
  have ss: "same_stream s s1" using f by (simp add: same_stream_def)
  have gl: "gap_list s1 = gap_list s" using f by (simp add: gap_list_def)
  show ?thesis
  proof (cases "pos s1 \<noteq> p")
    case False
    then have "reset s p tok = s1"
      by (simp add: reset_def s1_def [symmetric] Let_def)
    with i1 ss False f show ?thesis by simp
  next
    case True
    show ?thesis
    proof (cases "p \<ge> chunkPos s1 \<and> p < chunkPos s1 + int (length (chunk s1))")
      case inside: True
      let ?m = "s1\<lparr>pos := p, chunkOff := p - chunkPos s1\<rparr>"
      have r: "reset s p tok = readNext ?m"
        using True inside by (simp add: reset_def s1_def [symmetric] Let_def)
      have "read_pre ?m"
        using i1 inside assms(2) f
        by (simp add: read_pre_def fetch_pre_def stream_inv_def config_ok_def chunk_ok_def gap_list_def)
      from readNext_inv[OF this] inside ss f show ?thesis
        unfolding r by (auto simp: moved_def same_stream_def)
    next
      case outside: False
      let ?m = "s1\<lparr>pos := p, chunk := [], chunkOff := 0\<rparr>"
      have r: "reset s p tok = readNext ?m"
        using True outside by (auto simp: reset_def s1_def [symmetric] Let_def)
      have "read_pre ?m"
        using i1 assms(2) f
        by (simp add: read_pre_def fetch_pre_def stream_inv_def config_ok_def chunk_ok_def gap_list_def)
      from readNext_inv[OF this] ss f gl show ?thesis
        unfolding r by (auto simp: moved_def same_stream_def gap_list_def)
    qed
  qed
qed

lemma InputStream_new_inv:
  assumes "0 \<le> start'" and "end' \<le> int (length (doc inp))"
    and "wf_gaps (case gaps' of None \<Rightarrow> [] | Some gs \<Rightarrow> gs)"
  shows "stream_inv (InputStream_new inp start' end' gaps' null_token)"
proof -
  let ?r = "\<lparr>chunk = [], chunkOff = 0, chunkPos = start', chunk2 = [], chunk2Pos = 0,
        nxt = Some (- 1),
        gaps = (case gaps' of None \<Rightarrow> None | Some gs \<Rightarrow> if length gs \<noteq> 0 then Some gs else None),
        token = None, nullToken = null_token,
        pos = start', input = inp, start = start', end_pos = end'\<rparr>"
  have "gap_list ?r = (case gaps' of None \<Rightarrow> [] | Some gs \<Rightarrow> gs)"
    by (auto simp: gap_list_def split: option.splits)
  then have "read_pre ?r"
    using assms by (simp add: read_pre_def fetch_pre_def config_ok_def chunk_ok_def)
  from readNext_inv[OF this] show ?thesis
    by (simp add: InputStream_new_def)
qed

lemma chunk_ok_gap_free:
  assumes "chunk_ok s p c" and "p \<le> q" and "q < p + int (length c)"
  shows "\<not> in_gap (gap_list s) q"
proof -
  from assms have "c \<noteq> []" by auto
  with assms(1) have "\<forall>g \<in> set (gap_list s). gap_to g \<le> p \<or> p + int (length c) \<le> gap_from g"
    by (simp add: chunk_ok_def)
  with assms(2,3) show ?thesis
    by (fastforce simp: in_gap_def)
qed

lemma chunk_ok_nth:
  assumes "chunk_ok s p c" and "0 \<le> start s" and "0 \<le> i" and "i < int (length c)"
  shows "c ! nat i = doc (input s) ! nat (p + i)" and "p + i < int (length (doc (input s)))"
    and "0 \<le> p"
proof -
  from assms have ne: "c \<noteq> []" by auto
  with assms(1) have c: "c = take (length c) (drop (nat p) (doc (input s)))"
    and r: "start s \<le> p" by (simp_all add: chunk_ok_def)
  let ?D = "doc (input s)"
  show p0: "0 \<le> p" using r assms(2) by simp
  have "length c = length (take (length c) (drop (nat p) ?D))" using c by simp
  then have l: "length c \<le> length ?D - nat p" by simp
  have "c ! nat i = take (length c) (drop (nat p) ?D) ! nat i" using c by simp
  also have "\<dots> = drop (nat p) ?D ! nat i" using assms(3,4) by simp
  also have "\<dots> = ?D ! (nat p + nat i)"
  proof -
    have "nat p \<le> length ?D" using l ne by (cases c) auto
    then show ?thesis by simp
  qed
  finally have e: "c ! nat i = ?D ! (nat p + nat i)" .
  have "nat p + nat i = nat (p + i)" using p0 assms(3) by simp
  with e show "c ! nat i = ?D ! nat (p + i)" by simp
  show "p + i < int (length ?D)" using l assms(3,4) p0 by simp
qed

lemma stream_inv_nxt:
  assumes "stream_inv s"
  shows "nxt s = (if pos s < end_pos s then Some (int (doc (input s) ! nat (pos s))) else Some (- 1))"
proof (cases "chunkOff s < int (length (chunk s))")
  case True
  with assms have c: "0 \<le> chunkOff s" "pos s = chunkPos s + chunkOff s"
      "nxt s = charCodeAt (chunk s) (chunkOff s)"
    and ck: "chunk_ok s (chunkPos s) (chunk s)" and s0: "0 \<le> start s"
    by (simp_all add: stream_inv_def cursor_ok_def config_ok_def)
  from ck True c(1) have "chunkPos s + int (length (chunk s)) \<le> end_pos s"
    by (auto simp: chunk_ok_def)
  then have lt: "pos s < end_pos s" using c True by simp
  from chunk_ok_nth(1)[OF ck s0 c(1) True] c True lt show ?thesis
    by (simp add: charCodeAt_def js_index_def)
next
  case False
  with assms show ?thesis
    by (simp add: stream_inv_def cursor_ok_def)
qed

lemma stream_inv_gap_clear:
  assumes "stream_inv s"
  shows "gap_clear s"
proof -
  from assms have ck: "chunk_ok s (chunkPos s) (chunk s)" and cu: "cursor_ok s"
    by (simp_all add: stream_inv_def)
  have a: "\<not> in_gap (gap_list s) q"
    if "q \<in> {chunkPos s ..< chunkPos s + int (length (chunk s))}" for q
    using chunk_ok_gap_free[OF ck, of q] that by simp
  have "\<not> in_gap (gap_list s) (pos s) \<or> end_pos s \<le> pos s"
  proof (cases "chunkOff s < int (length (chunk s))")
    case True
    with cu have "pos s \<in> {chunkPos s ..< chunkPos s + int (length (chunk s))}"
      by (simp add: cursor_ok_def)
    from a[OF this] show ?thesis by simp
  next
    case False
    with cu show ?thesis by (simp add: cursor_ok_def)
  qed
  with a show ?thesis by (simp add: gap_clear_def)
qed

lemma getChunk_gap_clear:
  assumes "stream_inv s"
  shows "gap_clear (snd (getChunk s)) \<and> pos s \<le> pos (snd (getChunk s))"
proof -
  from assms have "fetch_pre s" by (simp add: stream_inv_def fetch_pre_def)
  from getChunk_inv[OF this] have p: "fetch_post s (fst (getChunk s)) (snd (getChunk s))" .
  let ?s = "snd (getChunk s)"
  from p have ck: "chunk_ok ?s (chunkPos ?s) (chunk ?s)" by (simp add: fetch_post_def)
  have a: "\<not> in_gap (gap_list ?s) q"
    if "q \<in> {chunkPos ?s ..< chunkPos ?s + int (length (chunk ?s))}" for q
    using chunk_ok_gap_free[OF ck, of q] that by simp
  have "\<not> in_gap (gap_list ?s) (pos ?s) \<or> end_pos ?s \<le> pos ?s"
  proof (cases "fst (getChunk s)")
    case True
    with p have "pos ?s \<in> {chunkPos ?s ..< chunkPos ?s + int (length (chunk ?s))}"
      by (simp add: fetch_post_def)
    from a[OF this] show ?thesis by simp
  next
    case False
    with p show ?thesis by (simp add: fetch_post_def)
  qed
  with a p show ?thesis by (simp add: gap_clear_def fetch_post_def)
qed

lemma gap_clear_within: "gap_clear s \<Longrightarrow> gaps_within s \<Longrightarrow> \<not> in_gap (gap_list s) (pos s)"
  by (fastforce simp: gap_clear_def gaps_within_def in_gap_def)

lemma resolve_backward_id: "offset < 0 \<Longrightarrow> resolve_backward gs p offset = offset"
  by (induction gs) auto

lemma resolve_forward_id:
  "\<forall>g \<in> set gs. gap_from g \<le> p \<or> p + k < gap_from g \<Longrightarrow> resolve_forward gs p k = k"
  by (induction gs) auto

lemma resolvePos_backward: "k < 0 \<Longrightarrow> resolvePos s p k = p + k"
  by (simp add: resolvePos_def resolve_backward_id split: option.splits)

lemma resolvePos_in_chunk:
  assumes "stream_inv s" and "0 \<le> chunkOff s + k" and "chunkOff s + k < int (length (chunk s))"
  shows "resolvePos s (pos s) k = pos s + k"
    and "pos s + k = chunkPos s + (chunkOff s + k)"
proof -
  from assms have ne: "chunk s \<noteq> []" by auto
  with assms(1) have cu: "chunkOff s < int (length (chunk s))" "pos s = chunkPos s + chunkOff s"
    "0 \<le> chunkOff s"
    by (auto simp: stream_inv_def cursor_ok_def split: if_splits)
  then show "pos s + k = chunkPos s + (chunkOff s + k)" by simp
  from assms(1) ne have gf: "\<forall>g \<in> set (gap_list s). gap_to g \<le> chunkPos s \<or>
      chunkPos s + int (length (chunk s)) \<le> gap_from g"
    and wf: "wf_gaps (gap_list s)"
    by (simp_all add: stream_inv_def chunk_ok_def config_ok_def)
  show "resolvePos s (pos s) k = pos s + k"
  proof (cases "k > 0")
    case False
    then show ?thesis
      using resolvePos_backward[of k s "pos s"]
      by (cases "k = 0") (simp_all add: resolvePos_def split: option.splits)
  next
    case True
    have "\<forall>g \<in> set (gap_list s). gap_from g \<le> pos s \<or> pos s + k < gap_from g"
    proof
      fix g assume g: "g \<in> set (gap_list s)"
      with wf have "gap_from g \<le> gap_to g" by (simp add: wf_gaps_def)
      with gf g cu assms(2,3) show "gap_from g \<le> pos s \<or> pos s + k < gap_from g"
        by force
    qed
    from resolve_forward_id[OF this] True show ?thesis
      by (simp add: resolvePos_def gap_list_def split: option.splits)
  qed
qed

lemma peek_value:
  assumes "stream_inv s"
  shows "fst (peek s k) =
     (let q = resolvePos s (pos s) k
      in if q < start s \<or> end_pos s \<le> q then Some (- 1)
         else Some (int (doc (input s) ! nat q)))"
proof (cases "0 \<le> chunkOff s + k \<and> chunkOff s + k < int (length (chunk s))")
  case True
  then have i: "0 \<le> chunkOff s + k" "chunkOff s + k < int (length (chunk s))" by simp_all
  note q = resolvePos_in_chunk[OF assms i]
  from assms have ck: "chunk_ok s (chunkPos s) (chunk s)" and s0: "0 \<le> start s"
    by (simp_all add: stream_inv_def config_ok_def)
  from ck i have r: "start s \<le> chunkPos s" "chunkPos s + int (length (chunk s)) \<le> end_pos s"
    by (auto simp: chunk_ok_def)
  have v: "fst (peek s k) = Some (int (chunk s ! nat (chunkOff s + k)))"
    using True by (simp add: peek_def Let_def charCodeAt_def js_index_def)
  from chunk_ok_nth(1)[OF ck s0 i] v q r i show ?thesis
    by (simp add: Let_def)
next
  case False
  let ?q = "resolvePos s (pos s) k"
  have v: "fst (peek s k) = (if ?q < start s \<or> ?q \<ge> end_pos s then Some (- 1)
                else charCodeAt (Input_read (input s) ?q (?q + 1)) 0)"
    using False by (auto simp: peek_def Let_def)
  show ?thesis
  proof (cases "?q < start s \<or> end_pos s \<le> ?q")
    case True
    with v show ?thesis by (simp add: Let_def)
  next
    case nr: False
    from assms have "0 \<le> start s" "end_pos s \<le> int (length (doc (input s)))"
      by (simp_all add: stream_inv_def config_ok_def)
    with nr have b: "0 \<le> ?q" "nat ?q < length (doc (input s))" by auto
    have "Input_read (input s) ?q (?q + 1) = take 1 (drop (nat ?q) (doc (input s)))"
      using b by (simp add: Input_read_def nat_add_distrib)
    also have "\<dots> = [doc (input s) ! nat ?q]"
      using b by (simp add: take_Suc_conv_app_nth Cons_nth_drop_Suc [symmetric])
    finally have "charCodeAt (Input_read (input s) ?q (?q + 1)) 0 = Some (int (doc (input s) ! nat ?q))"
      by (simp add: charCodeAt_def js_index_def)
    with v nr show ?thesis by (simp add: Let_def)
  qed
qed


lemma skip_gaps_id: "\<not> in_gap gs p \<or> e \<le> p \<Longrightarrow> skip_gaps e gs p = p"
  by (induction gs) auto

lemma skip_gaps_ge: "p \<le> skip_gaps e gs p"
proof (induction gs arbitrary: p)
  case Nil
  then show ?case by simp
next
  case (Cons g gs)
  let ?p = "if p < e \<and> gap_from g \<le> p \<and> p < gap_to g then gap_to g else p"
  have "p \<le> ?p" by simp
  also have "?p \<le> skip_gaps e gs ?p" by (rule Cons.IH)
  finally show ?case by simp
qed

lemma skip_gaps_between: "p \<le> q \<Longrightarrow> q < skip_gaps e gs p \<Longrightarrow> in_gap gs q"
proof (induction gs arbitrary: p)
  case Nil
  then show ?case by simp
next
  case (Cons g gs)
  let ?p = "if p < e \<and> gap_from g \<le> p \<and> p < gap_to g then gap_to g else p"
  have s: "skip_gaps e (g # gs) p = skip_gaps e gs ?p" by simp
  show ?case
  proof (cases "q < ?p")
    case True
    with Cons.prems(1) show ?thesis by (auto split: if_splits)
  next
    case False
    then have "?p \<le> q" by simp
    from Cons.IH[OF this] Cons.prems(2) s show ?thesis by simp
  qed
qed

lemma skip_gaps_restart:
  "wf_gaps gs \<Longrightarrow> g \<in> set gs \<Longrightarrow> gap_from g \<le> p \<Longrightarrow> p < gap_to g \<Longrightarrow> p < e \<Longrightarrow>
   skip_gaps e gs p = skip_gaps e gs (gap_to g)"
proof (induction gs)
  case Nil
  then show ?case by simp
next
  case (Cons h H)
  have wf: "wf_gaps H" and ge: "\<forall>x \<in> set H. gap_to h \<le> gap_from x" and hh: "gap_from h \<le> gap_to h"
    using Cons.prems(1) by (auto simp: wf_gaps_def)
  show ?case
  proof (cases "gap_from h \<le> p \<and> p < gap_to h")
    case True
    have "g = h"
    proof (rule ccontr)
      assume "g \<noteq> h"
      with Cons.prems(2) have "g \<in> set H" by simp
      with ge have "gap_to h \<le> gap_from g" by simp
      with True Cons.prems(3) show False by simp
    qed
    with True Cons.prems(5) show ?thesis by simp
  next
    case False
    with Cons.prems(3,4) have "g \<noteq> h" by auto
    with Cons.prems(2) have g: "g \<in> set H" by simp
    with ge have "gap_to h \<le> gap_from g" by simp
    with Cons.prems(3,4) have n: "\<not> (gap_from h \<le> gap_to g \<and> gap_to g < gap_to h)" by simp
    have "skip_gaps e (h # H) p = skip_gaps e H p" using False by auto
    moreover have "skip_gaps e (h # H) (gap_to g) = skip_gaps e H (gap_to g)" using n by auto
    ultimately show ?thesis using Cons.IH[OF wf g Cons.prems(3,4,5)] by simp
  qed
qed

lemma removeGaps_loop_skip:
  assumes "wf_gaps G" and "set gs \<subseteq> set G" and "pos s = from'" and "from' < e" and "to' \<le> e"
  shows "case removeGaps_loop gs from' to' s of
           Done s' \<Rightarrow> skip_gaps e G (pos s') = skip_gaps e G from' \<and> gaps s' = gaps s
         | Refetch s' \<Rightarrow> skip_gaps e G (pos s') = skip_gaps e G from' \<and> gaps s' = gaps s"
  using assms(2-)
proof (induction gs arbitrary: from' s)
  case Nil
  then show ?case by simp
next
  case (Cons g gs)
  have sub: "set gs \<subseteq> set G" and g: "g \<in> set G" using Cons.prems(1) by auto
  show ?case
  proof (cases "gap_from g < to' \<and> gap_to g > from' \<and> \<not> from' < gap_from g")
    case True
    then have r: "skip_gaps e G from' = skip_gaps e G (gap_to g)"
      using skip_gaps_restart[OF assms(1) g, of from' e] Cons.prems(3) by simp
    show ?thesis
    proof (cases "to' > gap_to g")
      case gt: True
      define s1 where "s1 = s\<lparr>pos := gap_to g, chunkPos := gap_to g,
           chunk := js_slice_from (chunk s) (gap_to g - from')\<rparr>"
      have eq: "removeGaps_loop (g # gs) from' to' s = removeGaps_loop gs (gap_to g) to' s1"
        using True gt by (simp add: Let_def s1_def)
      have "pos s1 = gap_to g" "gap_to g < e" using gt Cons.prems(4) by (simp_all add: s1_def)
      from Cons.IH[OF sub this Cons.prems(4)] r show ?thesis
        unfolding eq by (cases "removeGaps_loop gs (gap_to g) to' s1") (simp_all add: s1_def)
    next
      case False
      with True r show ?thesis by (simp add: Let_def)
    qed
  next
    case False
    show ?thesis
    proof (cases "gap_from g \<ge> to'")
      case True
      with Cons.prems(2) show ?thesis by simp
    next
      case lt: False
      show ?thesis
      proof (cases "gap_to g > from'")
        case True
        with False lt have "from' < gap_from g" by simp
        with lt True Cons.prems(2) show ?thesis by simp
      next
        case ngt: False
        have eq: "removeGaps_loop (g # gs) from' to' s = removeGaps_loop gs from' to' s"
          using lt ngt by simp
        from Cons.IH[OF sub Cons.prems(2,3,4)] show ?thesis
          unfolding eq .
      qed
    qed
  qed
qed

lemma removeGaps_loop_mono:
  "pos s \<le> from' \<Longrightarrow>
   (case removeGaps_loop gs from' to' s of Done s' \<Rightarrow> pos s \<le> pos s' | Refetch s' \<Rightarrow> pos s \<le> pos s')"
proof (induction gs arbitrary: from' s)
  case Nil
  then show ?case by simp
next
  case (Cons g gs)
  show ?case
  proof (cases "gap_from g < to' \<and> gap_to g > from' \<and> \<not> from' < gap_from g \<and> to' > gap_to g")
    case True
    define s1 where "s1 = s\<lparr>pos := gap_to g, chunkPos := gap_to g,
           chunk := js_slice_from (chunk s) (gap_to g - from')\<rparr>"
    have eq: "removeGaps_loop (g # gs) from' to' s = removeGaps_loop gs (gap_to g) to' s1"
      using True by (simp add: Let_def s1_def)
    have "pos s1 \<le> gap_to g" by (simp add: s1_def)
    from Cons.IH[OF this] have "case removeGaps_loop gs (gap_to g) to' s1 of
        Done s' \<Rightarrow> pos s1 \<le> pos s' | Refetch s' \<Rightarrow> pos s1 \<le> pos s'" .
    moreover have "pos s \<le> pos s1" using True Cons.prems by (simp add: s1_def)
    ultimately show ?thesis
      unfolding eq by (cases "removeGaps_loop gs (gap_to g) to' s1") simp_all
  next
    case False
    with Cons.prems Cons.IH[of s from'] show ?thesis
      by (auto simp: Let_def split: if_splits)
  qed
qed

lemma getChunk_cases:
  obtains (swap) "pos (snd (getChunk s)) = pos s"
  | (loop) gs c s1 where "gaps s = Some gs" "pos s < end_pos s"
      "pos s + int (length c) \<le> end_pos s"
      "s1 = s\<lparr>chunk2 := chunk s, chunk2Pos := chunkPos s, chunk := c,
              chunkPos := pos s, chunkOff := 0\<rparr>"
      "getChunk s =
         (case removeGaps_loop gs (pos s) (pos s + int (length c)) s1 of
            Done s' \<Rightarrow> (True, s')
          | Refetch s' \<Rightarrow> getChunk s')"
proof (cases "pos s \<ge> chunk2Pos s \<and> pos s < chunk2Pos s + int (length (chunk2 s))")
  case True
  then have "pos (snd (getChunk s)) = pos s" by (subst getChunk.simps) simp
  then show ?thesis by (rule swap)
next
  case nswap: False
  show ?thesis
  proof (cases "pos s \<ge> end_pos s")
    case True
    then have "pos (snd (getChunk s)) = pos s"
      by (subst getChunk.simps, subst if_not_P [OF nswap]) simp
    then show ?thesis by (rule swap)
  next
    case lt: False
    define nextChunk where "nextChunk = Input_chunk (input s) (pos s)"
    define c where "c = (if pos s + int (length nextChunk) > end_pos s
                         then js_slice nextChunk 0 (end_pos s - pos s) else nextChunk)"
    define s1 where "s1 = s\<lparr>chunk2 := chunk s, chunk2Pos := chunkPos s, chunk := c,
                  chunkPos := pos s, chunkOff := 0\<rparr>"
    have cend: "pos s + int (length c) \<le> end_pos s"
      using lt by (auto simp: c_def js_slice_take)
    show ?thesis
    proof (cases "gaps s")
      case None
      have "getChunk s = (True, s1)"
        using lt None
        by (subst getChunk.simps, subst if_not_P [OF nswap])
          (simp add: Let_def s1_def c_def nextChunk_def)
      then have "pos (snd (getChunk s)) = pos s" by (simp add: s1_def)
      then show ?thesis by (rule swap)
    next
      case (Some gs)
      have eq: "getChunk s =
         (case removeGaps_loop gs (pos s) (pos s + int (length c)) s1 of
            Done s' \<Rightarrow> (True, s')
          | Refetch s' \<Rightarrow> getChunk s')"
        using lt Some
        by (subst getChunk.simps, subst if_not_P [OF nswap])
          (simp add: Let_def s1_def c_def nextChunk_def removeGapsFromChunk.simps)
      have lt': "pos s < end_pos s" using lt by simp
      from Some lt' cend s1_def eq show ?thesis by (rule loop)
    qed
  qed
qed

lemma getChunk_pos_mono: "pos s \<le> pos (snd (getChunk s))"
proof (induction "nat (end_pos s - pos s)" arbitrary: s rule: less_induct)
  case less
  show ?case
  proof (cases s rule: getChunk_cases)
    case swap
    then show ?thesis by simp
  next
    case (loop gs c s1)
    have p1: "pos s1 \<le> pos s" by (simp add: loop(4))
    note m = removeGaps_loop_mono[OF p1, of gs "pos s + int (length c)"]
    show ?thesis
    proof (cases "removeGaps_loop gs (pos s) (pos s + int (length c)) s1")
      case (Done s')
      with m loop(5) show ?thesis by (simp add: loop(4))
    next
      case (Refetch s')
      from removeGaps_loop_Refetch[OF Refetch] have r: "pos s < pos s'" "end_pos s' = end_pos s"
        by (simp_all add: loop(4))
      have "nat (end_pos s' - pos s') < nat (end_pos s - pos s)"
        using r loop(2) by simp
      from less.hyps[OF this] have "pos s' \<le> pos (snd (getChunk s'))" .
      with r(1) loop(5) Refetch show ?thesis by simp
    qed
  qed
qed

lemma getChunk_skip:
  "wf_gaps (gap_list s) \<Longrightarrow>
   skip_gaps (end_pos s) (gap_list s) (pos (snd (getChunk s)))
     = skip_gaps (end_pos s) (gap_list s) (pos s)"
proof (induction "nat (end_pos s - pos s)" arbitrary: s rule: less_induct)
  case less
  show ?case
  proof (cases s rule: getChunk_cases)
    case swap
    then show ?thesis by simp
  next
    case (loop gs c s1)
    have G: "gap_list s = gs" using loop(1) by (simp add: gap_list_def)
    have wf: "wf_gaps gs" using less.prems G by simp
    have p1: "pos s1 = pos s" by (simp add: loop(4))
    note k = removeGaps_loop_skip[OF wf subset_refl p1 loop(2,3)]
    show ?thesis
    proof (cases "removeGaps_loop gs (pos s) (pos s + int (length c)) s1")
      case (Done s')
      with k loop(5) G show ?thesis by simp
    next
      case (Refetch s')
      from removeGaps_loop_Refetch[OF Refetch] have r: "pos s < pos s'" "end_pos s' = end_pos s"
        by (simp_all add: loop(4))
      from k Refetch have k': "skip_gaps (end_pos s) gs (pos s') = skip_gaps (end_pos s) gs (pos s)"
        and g': "gaps s' = gaps s" by (simp_all add: loop(4))
      have G': "gap_list s' = gs" using g' loop(1) by (simp add: gap_list_def)
      have "nat (end_pos s' - pos s') < nat (end_pos s - pos s)"
        using r loop(2) by simp
      from less.hyps[OF this] wf G' r(2)
      have "skip_gaps (end_pos s) gs (pos (snd (getChunk s'))) = skip_gaps (end_pos s) gs (pos s')"
        by simp
      with k' loop(5) Refetch G show ?thesis by simp
    qed
  qed
qed

lemma getChunk_fetch_clear:
  assumes "fetch_pre s"
  shows "gap_clear (snd (getChunk s))"
    and "pos (snd (getChunk s)) = skip_gaps (end_pos s) (gap_list s) (pos s)"
proof -
  from getChunk_inv[OF assms] have p: "fetch_post s (fst (getChunk s)) (snd (getChunk s))" .
  let ?s = "snd (getChunk s)"
  from p have ck: "chunk_ok ?s (chunkPos ?s) (chunk ?s)" and ss: "same_stream s ?s"
    by (simp_all add: fetch_post_def)
  have a: "\<not> in_gap (gap_list ?s) q"
    if "q \<in> {chunkPos ?s ..< chunkPos ?s + int (length (chunk ?s))}" for q
    using chunk_ok_gap_free[OF ck, of q] that by simp
  have e: "\<not> in_gap (gap_list ?s) (pos ?s) \<or> end_pos ?s \<le> pos ?s"
  proof (cases "fst (getChunk s)")
    case True
    with p have "pos ?s \<in> {chunkPos ?s ..< chunkPos ?s + int (length (chunk ?s))}"
      by (simp add: fetch_post_def)
    from a[OF this] show ?thesis by simp
  next
    case False
    with p show ?thesis by (simp add: fetch_post_def)
  qed
  with a show "gap_clear ?s" by (simp add: gap_clear_def)
  have f: "gap_list ?s = gap_list s" "end_pos ?s = end_pos s"
    using ss by (simp_all add: same_stream_def gap_list_def)
  have wf: "wf_gaps (gap_list s)" using assms by (simp add: fetch_pre_def config_ok_def)
  from e f have "skip_gaps (end_pos s) (gap_list s) (pos ?s) = pos ?s"
    by (intro skip_gaps_id) simp
  with getChunk_skip[OF wf] show "pos ?s = skip_gaps (end_pos s) (gap_list s) (pos s)"
    by simp
qed

lemma readNext_pos:
  assumes "read_pre s"
  shows "pos (readNext s) = skip_gaps (end_pos s) (gap_list s) (pos s)"
proof (cases "chunkOff s = int (length (chunk s))")
  case True
  from assms have pre: "fetch_pre s" by (simp add: read_pre_def)
  have "pos (readNext s) = pos (snd (getChunk s))"
    using True by (cases "getChunk s") (auto simp: readNext_def split: bool.splits)
  with getChunk_fetch_clear(2)[OF pre] show ?thesis by simp
next
  case False
  with assms have c: "0 \<le> chunkOff s" "chunkOff s < int (length (chunk s))"
      "pos s = chunkPos s + chunkOff s" and ck: "chunk_ok s (chunkPos s) (chunk s)"
    by (simp_all add: read_pre_def fetch_pre_def)
  from chunk_ok_gap_free[OF ck, of "pos s"] c have "\<not> in_gap (gap_list s) (pos s)" by simp
  then have "skip_gaps (end_pos s) (gap_list s) (pos s) = pos s"
    by (intro skip_gaps_id) simp
  with False show ?thesis by (simp add: readNext_def)
qed

lemma readNext_pos_mono: "pos s \<le> pos (readNext s)"
proof (cases "chunkOff s = int (length (chunk s))")
  case True
  have "pos (readNext s) = pos (snd (getChunk s))"
    using True by (cases "getChunk s") (auto simp: readNext_def split: bool.splits)
  with getChunk_pos_mono[of s] show ?thesis by simp
next
  case False
  then show ?thesis by (simp add: readNext_def)
qed

lemma advance_one_moves:
  assumes "\<not> opt_lt (nxt s) 0"
  shows "pos s < pos (snd (advance s 1))"
proof -
  let ?m = "note_lookAhead (pos s + 1) (s\<lparr>chunkOff := chunkOff s + 1, pos := pos s + 1\<rparr>)"
  have "snd (advance s 1) = readNext ?m"
    using assms by (simp add: advance_def)
  with readNext_pos_mono[of ?m] show ?thesis by simp
qed

lemma advance_step_pos:
  assumes "stream_inv s" and "\<not> opt_lt (nxt s) 0"
  shows "pos (readNext (note_lookAhead (pos s + 1) (s\<lparr>chunkOff := chunkOff s + 1, pos := pos s + 1\<rparr>)))
     = skip_gaps (end_pos s) (gap_list s) (pos s + 1)"
proof -
  let ?m = "note_lookAhead (pos s + 1) (s\<lparr>chunkOff := chunkOff s + 1, pos := pos s + 1\<rparr>)"
  from stream_inv_has_next[OF assms(1,2)]
  have c: "0 \<le> chunkOff s" "chunkOff s < int (length (chunk s))" "pos s = chunkPos s + chunkOff s"
    by simp_all
  have "read_pre ?m"
    using assms(1) c
    by (simp add: read_pre_def fetch_pre_def stream_inv_def config_ok_def chunk_ok_def gap_list_def)
  from readNext_pos[OF this] show ?thesis by (simp add: gap_list_def)
qed

lemma stream_inv_end_iff: "stream_inv s \<Longrightarrow> opt_lt (nxt s) 0 = (end_pos s \<le> pos s)"
  using stream_inv_nxt[of s] by (auto simp: opt_lt_def)

lemma advance_loop_pos:
  "stream_inv s \<Longrightarrow>
   pos (snd (advance_loop n s)) = advance_walk (end_pos s) (gap_list s) n (pos s)"
proof (induction n arbitrary: s)
  case 0
  then show ?case by simp
next
  case (Suc n)
  show ?case
  proof (cases "opt_lt (nxt s) 0")
    case True
    with stream_inv_end_iff[OF Suc.prems] show ?thesis by simp
  next
    case False
    let ?s' = "readNext (note_lookAhead (pos s + 1) (s\<lparr>chunkOff := chunkOff s + 1, pos := pos s + 1\<rparr>))"
    from advance_step_inv[OF Suc.prems False]
    have i: "stream_inv ?s'" and ss: "same_stream s ?s'" by simp_all
    have f: "end_pos ?s' = end_pos s" "gap_list ?s' = gap_list s"
      using ss by (simp_all add: same_stream_def gap_list_def)
    from Suc.IH[OF i] f advance_step_pos[OF Suc.prems False] False
      stream_inv_end_iff[OF Suc.prems]
    show ?thesis by simp
  qed
qed


text \<open>
  Claim C5, as amended. No operation of the stream throws: every method is a total
  function here, none has a failing branch, and the recursion between \<^verbatim>\<open>getChunk\<close> and
  \<^verbatim>\<open>removeGapsFromChunk\<close> ends (their termination proof). On every well-formed stream,
  that is a stream whose range \<open>[start, end)\<close> lies within the input, whose gaps are sorted
  and do not overlap, and whose position and cached chunks are as the constructor,
  \<^verbatim>\<open>peek\<close>, \<^verbatim>\<open>advance\<close>, \<^verbatim>\<open>acceptToken\<close> and \<^verbatim>\<open>reset\<close> to a position not before \<open>start\<close>
  leave them: when the position is at or beyond \<open>end\<close>, \<^verbatim>\<open>next\<close> is -1; \<^verbatim>\<open>peek(k)\<close>
  returns -1 whenever the resolved position lies outside \<open>[start, end)\<close>; \<^verbatim>\<open>advance\<close> at
  the end of the input returns -1 and leaves the stream as it is; and these operations
  leave the stream well formed. The constructor yields a well-formed stream
  (\<open>InputStream_new_inv\<close>).
\<close>

theorem InputStream_out_of_range_is_minus_one:
  assumes "stream_inv s"
  shows "(end_pos s \<le> pos s \<longrightarrow> nxt s = Some (- 1)) \<and>
         (resolvePos s (pos s) k < start s \<or> end_pos s \<le> resolvePos s (pos s) k
            \<longrightarrow> fst (peek s k) = Some (- 1)) \<and>
         (end_pos s \<le> pos s \<longrightarrow> advance s n = (Some (- 1), s)) \<and>
         stream_inv (snd (peek s k)) \<and> stream_inv (snd (advance s n)) \<and>
         stream_inv (acceptToken s tok endOffset) \<and>
         (start s \<le> p \<longrightarrow> stream_inv (reset s p t))"
proof -
  have 1: "end_pos s \<le> pos s \<longrightarrow> nxt s = Some (- 1)"
    using stream_inv_at_end[OF assms] by simp
  have 2: "resolvePos s (pos s) k < start s \<or> end_pos s \<le> resolvePos s (pos s) k
            \<longrightarrow> fst (peek s k) = Some (- 1)"
    using peek_value[OF assms, of k] by (simp add: Let_def)
  have 3: "end_pos s \<le> pos s \<longrightarrow> advance s n = (Some (- 1), s)"
    using advance_at_end[OF assms] by simp
  have 4: "stream_inv (snd (peek s k))" using assms by (simp add: stream_inv_peek)
  have 5: "stream_inv (snd (advance s n))" using advance_inv[OF assms] by simp
  have 6: "stream_inv (acceptToken s tok endOffset)" using assms by (simp add: stream_inv_acceptToken)
  have 7: "start s \<le> p \<longrightarrow> stream_inv (reset s p t)" using reset_inv[OF assms] by simp
  from 1 2 3 4 5 6 7 show ?thesis by blast
qed

theorem InputStream_out_of_range_witness:
  "stream_inv demo_end_stream \<and> end_pos demo_end_stream \<le> pos demo_end_stream \<and>
   nxt demo_end_stream = Some (- 1) \<and>
   end_pos demo_end_stream \<le> resolvePos demo_end_stream (pos demo_end_stream) 3 \<and>
   fst (peek demo_end_stream 3) = Some (- 1) \<and>
   advance demo_end_stream 1 = (Some (- 1), demo_end_stream) \<and>
   start demo_end_stream \<le> 0 \<and> stream_inv (reset demo_end_stream 0 None)"
proof -
  have "stream_inv demo_gap_stream"
    unfolding demo_gap_stream_def
    by (rule InputStream_new_inv) (simp_all add: demo_gap_input_def wf_gaps_def)
  from InputStream_out_of_range_is_minus_one [OF this, of 0 4]
  have i: "stream_inv demo_end_stream"
    by (simp add: demo_end_stream_def)
  have e: "end_pos demo_end_stream \<le> pos demo_end_stream" by code_simp
  have r: "end_pos demo_end_stream \<le> resolvePos demo_end_stream (pos demo_end_stream) 3"
    by code_simp
  have s: "start demo_end_stream \<le> 0" by code_simp
  from InputStream_out_of_range_is_minus_one [OF i, of 3 1 0 0 0 None] i e r s
  show ?thesis by simp
qed

text \<open>
  Claim C5 as stated, for every stream, fails on a stream that is not well formed. On the
  stream over \<^verbatim>\<open>ab\<close> with the range \<open>[0, 5)\<close> the input has no text at position 2: the
  chunk fetched there is empty, \<^verbatim>\<open>next\<close> is \<^verbatim>\<open>NaN\<close>, five steps of \<^verbatim>\<open>advance\<close> reach the
  position 5 with \<^verbatim>\<open>next\<close> still \<^verbatim>\<open>NaN\<close>, and a sixth moves on to 6. And once the stream
  over \<open>[1, 2)\<close> of \<^verbatim>\<open>ab\<close> is reset to position 0, \<^verbatim>\<open>peek(0)\<close> returns the \<^verbatim>\<open>a\<close> at position 0,
  which lies before \<open>start\<close>.
\<close>

theorem InputStream_ill_formed_counterexample:
  "pos (snd (advance demo_over_stream 5)) = 5 \<and>
   end_pos (snd (advance demo_over_stream 5)) = 5 \<and>
   nxt (snd (advance demo_over_stream 5)) = None \<and>
   fst (advance demo_over_stream 5) = None \<and>
   fst (advance (snd (advance demo_over_stream 5)) 1) = None \<and>
   pos (snd (advance (snd (advance demo_over_stream 5)) 1)) = 6 \<and>
   start (reset demo_tail_stream 0 None) = 1 \<and>
   resolvePos (reset demo_tail_stream 0 None) (pos (reset demo_tail_stream 0 None)) 0 = 0 \<and>
   fst (peek (reset demo_tail_stream 0 None) 0) = Some 97"
  by code_simp

text \<open>
  Claim C6, as amended. On every stream whose range lies within the input, whose gaps
  are sorted and do not overlap and whose cached chunks are in order (\<open>fetch_pre\<close>), a
  fetch leaves the chunk clear of the gaps and the position where \<open>skip_gaps\<close> puts it: a
  position inside a gap has moved to the gap's \<open>to\<close>, and only positions inside gaps have
  been passed over. On every well-formed stream, \<^verbatim>\<open>advance(n)\<close> leaves the chunk clear of
  the gaps, the position where \<open>n\<close> steps over the text without its gap content lead, and
  in \<^verbatim>\<open>next\<close> the code unit at that position (-1 at the end). The position lies in no
  gap unless the stream has reached its end; with gaps that end within the range of the
  stream it lies in no gap at all. Neither operation moves the position backward.
\<close>

theorem InputStream_position_outside_gaps:
  "(fetch_pre s \<longrightarrow>
      gap_clear (snd (getChunk s)) \<and>
      pos (snd (getChunk s)) = skip_gaps (end_pos s) (gap_list s) (pos s) \<and>
      (\<forall>q. pos s \<le> q \<and> q < pos (snd (getChunk s)) \<longrightarrow> in_gap (gap_list s) q)) \<and>
   (stream_inv s \<longrightarrow>
      gap_clear s \<and> gap_clear (snd (advance s n)) \<and> gap_clear (snd (getChunk s)) \<and>
      pos s \<le> pos (snd (advance s n)) \<and> pos s \<le> pos (snd (getChunk s)) \<and>
      pos (snd (advance s n)) = advance_walk (end_pos s) (gap_list s) (nat n) (pos s) \<and>
      nxt (snd (advance s n)) =
        (if pos (snd (advance s n)) < end_pos s
         then Some (int (doc (input s) ! nat (pos (snd (advance s n))))) else Some (- 1)) \<and>
      (\<forall>q. pos s < q \<and> q < pos (snd (advance s 1)) \<longrightarrow> in_gap (gap_list s) q) \<and>
      (gaps_within s \<longrightarrow>
         \<not> in_gap (gap_list s) (pos s) \<and>
         \<not> in_gap (gap_list s) (pos (snd (advance s n))) \<and>
         \<not> in_gap (gap_list s) (pos (snd (getChunk s)))))"
proof -
  let ?a = "snd (advance s n)" and ?g = "snd (getChunk s)"
  have 1: "gap_clear ?g \<and>
      pos ?g = skip_gaps (end_pos s) (gap_list s) (pos s) \<and>
      (\<forall>q. pos s \<le> q \<and> q < pos ?g \<longrightarrow> in_gap (gap_list s) q)"
    if pre: "fetch_pre s"
  proof -
    note c = getChunk_fetch_clear[OF pre]
    have "in_gap (gap_list s) q" if "pos s \<le> q" "q < pos ?g" for q
      using skip_gaps_between[of "pos s" q "end_pos s" "gap_list s"] that c(2) by simp
    with c show ?thesis by blast
  qed
  have 2: "gap_clear s \<and> gap_clear ?a \<and> gap_clear ?g \<and>
      pos s \<le> pos ?a \<and> pos s \<le> pos ?g \<and>
      pos ?a = advance_walk (end_pos s) (gap_list s) (nat n) (pos s) \<and>
      nxt ?a = (if pos ?a < end_pos s then Some (int (doc (input s) ! nat (pos ?a))) else Some (- 1)) \<and>
      (\<forall>q. pos s < q \<and> q < pos (snd (advance s 1)) \<longrightarrow> in_gap (gap_list s) q) \<and>
      (gaps_within s \<longrightarrow>
         \<not> in_gap (gap_list s) (pos s) \<and>
         \<not> in_gap (gap_list s) (pos ?a) \<and>
         \<not> in_gap (gap_list s) (pos ?g))"
    if inv: "stream_inv s"
  proof -
    from advance_inv[OF inv] have a: "stream_inv ?a" "same_stream s ?a" "pos s \<le> pos ?a"
      by simp_all
    have "fetch_pre s" using inv by (simp add: stream_inv_def fetch_pre_def)
    from getChunk_inv[OF this] have gs: "same_stream s ?g" by (simp add: fetch_post_def)
    note g = getChunk_gap_clear[OF inv]
    have c: "gap_clear s" "gap_clear ?a" "gap_clear ?g"
      using stream_inv_gap_clear[OF inv] stream_inv_gap_clear[OF a(1)] g by simp_all
    have w: "gaps_within ?a = gaps_within s" "gaps_within ?g = gaps_within s"
      "gap_list ?a = gap_list s" "gap_list ?g = gap_list s"
      "end_pos ?a = end_pos s" "input ?a = input s"
      using a(2) gs by (simp_all add: gaps_within_def gap_list_def same_stream_def)
    have k: "gaps_within s \<longrightarrow>
            \<not> in_gap (gap_list s) (pos s) \<and>
            \<not> in_gap (gap_list s) (pos ?a) \<and>
            \<not> in_gap (gap_list s) (pos ?g)"
      using gap_clear_within[OF c(1)] gap_clear_within[OF c(2)] gap_clear_within[OF c(3)] w
      by simp
    have p: "pos ?a = advance_walk (end_pos s) (gap_list s) (nat n) (pos s)"
      unfolding advance_def by (rule advance_loop_pos[OF inv])
    have x: "nxt ?a = (if pos ?a < end_pos s then Some (int (doc (input s) ! nat (pos ?a))) else Some (- 1))"
      using stream_inv_nxt[OF a(1)] w(5,6) by simp
    have o: "pos (snd (advance s 1))
        = (if end_pos s \<le> pos s then pos s else skip_gaps (end_pos s) (gap_list s) (pos s + 1))"
      unfolding advance_def using advance_loop_pos[OF inv, of "Suc 0"] by simp
    have b: "in_gap (gap_list s) q" if "pos s < q" "q < pos (snd (advance s 1))" for q
    proof (cases "end_pos s \<le> pos s")
      case True
      with o that show ?thesis by simp
    next
      case False
      with o that skip_gaps_between[of "pos s + 1" q "end_pos s" "gap_list s"]
      show ?thesis by simp
    qed
    from c a(3) g k p x b show ?thesis by blast
  qed
  from 1 2 show ?thesis by blast
qed

theorem InputStream_position_outside_gaps_witness:
  "fetch_pre demo_fetch_stream \<and> pos demo_fetch_stream = 2 \<and>
   in_gap (gap_list demo_fetch_stream) (pos demo_fetch_stream) \<and>
   pos (snd (getChunk demo_fetch_stream)) = 5 \<and>
   in_gap (gap_list demo_fetch_stream) 4 \<and>
   stream_inv demo_gap_stream \<and> gaps_within demo_gap_stream \<and>
   gap_clear (snd (advance demo_gap_stream 2)) \<and>
   pos (snd (advance demo_gap_stream 2)) = 5 \<and>
   nxt (snd (advance demo_gap_stream 2)) = Some 99 \<and>
   \<not> in_gap (gap_list demo_gap_stream) (pos (snd (advance demo_gap_stream 2)))"
proof -
  have i: "stream_inv demo_gap_stream"
    unfolding demo_gap_stream_def
    by (rule InputStream_new_inv) (simp_all add: demo_gap_input_def wf_gaps_def)
  have f: "fetch_pre demo_fetch_stream" by code_simp
  have f2: "pos demo_fetch_stream = 2" "in_gap (gap_list demo_fetch_stream) (pos demo_fetch_stream)"
    by code_simp+
  have k: "skip_gaps (end_pos demo_fetch_stream) (gap_list demo_fetch_stream) (pos demo_fetch_stream) = 5"
    by code_simp
  have w: "gaps_within demo_gap_stream" by code_simp
  have a: "advance_walk (end_pos demo_gap_stream) (gap_list demo_gap_stream) (nat 2) (pos demo_gap_stream) = 5"
    by code_simp
  have d: "doc (input demo_gap_stream) ! nat 5 = 99" "end_pos demo_gap_stream = 7" by code_simp+
  from InputStream_position_outside_gaps [of demo_fetch_stream 0] f k f2
  have g: "pos (snd (getChunk demo_fetch_stream)) = 5 \<and> in_gap (gap_list demo_fetch_stream) 4"
    by simp
  from InputStream_position_outside_gaps [of demo_gap_stream 2] i w
  have t: "gap_clear (snd (advance demo_gap_stream 2))"
    "pos (snd (advance demo_gap_stream 2))
       = advance_walk (end_pos demo_gap_stream) (gap_list demo_gap_stream) (nat 2) (pos demo_gap_stream)"
    "nxt (snd (advance demo_gap_stream 2)) =
        (if pos (snd (advance demo_gap_stream 2)) < end_pos demo_gap_stream
         then Some (int (doc (input demo_gap_stream) ! nat (pos (snd (advance demo_gap_stream 2)))))
         else Some (- 1))"
    "\<not> in_gap (gap_list demo_gap_stream) (pos (snd (advance demo_gap_stream 2)))"
    by blast+
  have p: "pos (snd (advance demo_gap_stream 2)) = 5" using t(2) a by simp
  have x: "nxt (snd (advance demo_gap_stream 2)) = Some 99" using t(3) d unfolding p by simp
  have h: "gap_clear (snd (advance demo_gap_stream 2)) \<and>
   pos (snd (advance demo_gap_stream 2)) = 5 \<and>
   nxt (snd (advance demo_gap_stream 2)) = Some 99 \<and>
   \<not> in_gap (gap_list demo_gap_stream) (pos (snd (advance demo_gap_stream 2)))"
    using t(1,4) p x by simp
  from f f2 g i w h show ?thesis by blast
qed

text \<open>
  Claim C6 as it is worded has the position in no gap at any time. The stream over the
  range \<open>[0, 2)\<close> of \<^verbatim>\<open>ab###cd\<close> with the gap \<open>[2, 5)\<close>, advanced twice: \<^verbatim>\<open>getChunk\<close> finds
  the position at the end of the range and returns before it looks at the gaps, so the
  stream stays at position 2, the first position of the gap, with \<^verbatim>\<open>next\<close> -1.
\<close>

theorem position_in_gap_at_end_counterexample:
  "pos (snd (advance demo_short_stream 2)) = 2 \<and>
   end_pos (snd (advance demo_short_stream 2)) = 2 \<and>
   nxt (snd (advance demo_short_stream 2)) = Some (- 1) \<and>
   in_gap (gap_list (snd (advance demo_short_stream 2))) (pos (snd (advance demo_short_stream 2)))"
  by code_simp

section \<open>The tokenizer's scan loop\<close>

lemma upd_token_id: "upd_token (\<lambda>t. t) s = s"
  by (simp add: upd_token_def split: option.splits)

lemma accept_loop_upd:
  "\<exists>f. accept_loop data allows overrides groupMask i accEnd inp = upd_token f inp"
proof (induction data allows overrides groupMask i accEnd inp rule: accept_loop.induct)
  case (1 data allows overrides groupMask i accEnd inp)
  have id: "\<exists>f. inp = upd_token f inp"
    using upd_token_id[of inp, symmetric] by blast
  show ?case
    by (subst accept_loop.simps) (auto simp: 1 acceptToken_def id split: option.splits)
qed

lemma accept_loop_fields:
  "pos (accept_loop data allows overrides groupMask i accEnd inp) = pos inp"
  "end_pos (accept_loop data allows overrides groupMask i accEnd inp) = end_pos inp"
  "gaps (accept_loop data allows overrides groupMask i accEnd inp) = gaps inp"
  "input (accept_loop data allows overrides groupMask i accEnd inp) = input inp"
  "stream_inv (accept_loop data allows overrides groupMask i accEnd inp) = stream_inv inp"
  using accept_loop_upd[of data allows overrides groupMask i accEnd inp]
  by auto


lemma edges_from_nonneg: "e \<in> set (edges data accEnd n) \<Longrightarrow> 0 \<le> fst e"
  by (auto simp: edges_def edge_at_def)

lemma linear_scan_Edge_nonneg:
  assumes "linear_scan (edges data accEnd n) c = Edge t"
  shows "0 \<le> c"
proof -
  from assms obtain e where "List.find (edge_matches c) (edges data accEnd n) = Some e"
    by (auto simp: linear_scan_def split: option.splits)
  then have "e \<in> set (edges data accEnd n)" "edge_matches c e"
    by (auto simp: find_Some_iff)
  with edges_from_nonneg[of e data accEnd n] show ?thesis
    by (simp add: edge_matches_def)
qed

text \<open>
  Claim C9. For every state of the table whose edges \<open>(from, toExclusive, nextState)\<close>
  lie within the table, are sorted by \<open>from\<close> and do not overlap, and for every next
  character \<open>c\<close>: the binary search of \<^verbatim>\<open>readToken\<close> gives what a linear scan of the edge
  list gives; it finds the state \<open>t\<close> exactly when some edge with
  \<open>from \<le> c < toExclusive\<close> and \<open>nextState = t\<close> exists; and one round of the loop
  \<^verbatim>\<open>scan\<close> then goes on in state \<open>t\<close> with the input advanced, while without a matching
  edge the loop ends and returns. The input advanced: the position of the stream has
  grown, and on a well-formed stream it is the next position outside the gaps, with the
  code unit found there in \<^verbatim>\<open>next\<close>.
\<close>

theorem readToken_binary_search_refines_linear_scan:
  assumes "table_ok data accEnd n" and "sorted_edges (edges data accEnd n)"
    and "js_and groupMask (rd data (Some st)) \<noteq> 0"
    and "rd data (Some (st + 1)) = Some accEnd" and "rd data (Some (st + 2)) = Some (int n)"
    and "nxt inp = Some c"
  shows "findEdge data (Some accEnd) (Some c) 0 (int n) = linear_scan (edges data accEnd n) c \<and>
         (\<forall>t. findEdge data (Some accEnd) (Some c) 0 (int n) = Edge t \<longleftrightarrow>
              (\<exists>e \<in> set (edges data accEnd n). edge_matches c e \<and> t = Some (snd (snd e)))) \<and>
         readToken_scan data allows overrides groupMask (Some st) inp =
           (let inp1 = accept_loop data allows overrides groupMask (st + 3) (Some accEnd) inp
            in case linear_scan (edges data accEnd n) c of
                 NoEdge \<Rightarrow> Some inp1
               | Edge t \<Rightarrow> readToken_scan data allows overrides groupMask t (snd (advance inp1 1))) \<and>
         (\<forall>t. linear_scan (edges data accEnd n) c = Edge t \<longrightarrow>
            (let inp1 = accept_loop data allows overrides groupMask (st + 3) (Some accEnd) inp;
                 inp2 = snd (advance inp1 1)
             in pos inp < pos inp2 \<and>
                (stream_inv inp \<longrightarrow>
                   stream_inv inp2 \<and>
                   pos inp2 = skip_gaps (end_pos inp) (gap_list inp) (pos inp + 1) \<and>
                   nxt inp2 = (if pos inp2 < end_pos inp
                               then Some (int (doc (input inp) ! nat (pos inp2)))
                               else Some (- 1)))))"
proof -
  have f: "findEdge data (Some accEnd) (Some c) 0 (int n) = linear_scan (edges data accEnd n) c"
    using assms(1,2) by (intro findEdge_linear) simp_all
  have i: "findEdge data (Some accEnd) (Some c) 0 (int n) = Edge t \<longleftrightarrow>
      (\<exists>e \<in> set (edges data accEnd n). edge_matches c e \<and> t = Some (snd (snd e)))" for t
    unfolding f by (rule linear_scan_Edge_iff [OF assms(2)])
  have r: "readToken_scan data allows overrides groupMask (Some st) inp =
           (let inp1 = accept_loop data allows overrides groupMask (st + 3) (Some accEnd) inp
            in case linear_scan (edges data accEnd n) c of
                 NoEdge \<Rightarrow> Some inp1
               | Edge t \<Rightarrow> readToken_scan data allows overrides groupMask t (snd (advance inp1 1)))"
    using assms(3-6)
    by (subst readToken_scan.simps) (simp add: Let_def nxt_accept_loop f)
  define inp1 where "inp1 = accept_loop data allows overrides groupMask (st + 3) (Some accEnd) inp"
  define inp2 where "inp2 = snd (advance inp1 1)"
  have a: "pos inp < pos inp2 \<and>
      (stream_inv inp \<longrightarrow>
         stream_inv inp2 \<and>
         pos inp2 = skip_gaps (end_pos inp) (gap_list inp) (pos inp + 1) \<and>
         nxt inp2 = (if pos inp2 < end_pos inp
                     then Some (int (doc (input inp) ! nat (pos inp2)))
                     else Some (- 1)))"
    if e: "linear_scan (edges data accEnd n) c = Edge t" for t
  proof -
    from linear_scan_Edge_nonneg[OF e] have c0: "0 \<le> c" .
    have n1: "nxt inp1 = Some c" using assms(6) by (simp add: inp1_def nxt_accept_loop)
    then have nl: "\<not> opt_lt (nxt inp1) 0" using c0 by (simp add: opt_lt_def)
    have fl: "pos inp1 = pos inp" "end_pos inp1 = end_pos inp" "gaps inp1 = gaps inp"
      "input inp1 = input inp" "stream_inv inp1 = stream_inv inp"
      by (simp_all add: inp1_def accept_loop_fields)
    have m: "pos inp < pos inp2"
      using advance_one_moves[OF nl] fl(1) by (simp add: inp2_def)
    have w: "stream_inv inp2 \<and>
         pos inp2 = skip_gaps (end_pos inp) (gap_list inp) (pos inp + 1) \<and>
         nxt inp2 = (if pos inp2 < end_pos inp
                     then Some (int (doc (input inp) ! nat (pos inp2)))
                     else Some (- 1))"
      if inv: "stream_inv inp"
    proof -
      from inv fl(5) have i1: "stream_inv inp1" by simp
      have s2: "inp2 = readNext (note_lookAhead (pos inp1 + 1)
                  (inp1\<lparr>chunkOff := chunkOff inp1 + 1, pos := pos inp1 + 1\<rparr>))"
        using nl by (simp add: inp2_def advance_def)
      from advance_step_inv[OF i1 nl] have i2: "stream_inv inp2" and ss: "same_stream inp1 inp2"
        by (simp_all add: s2)
      have p2: "pos inp2 = skip_gaps (end_pos inp) (gap_list inp) (pos inp + 1)"
        using advance_step_pos[OF i1 nl] fl by (simp add: s2 gap_list_def)
      have "end_pos inp2 = end_pos inp" "input inp2 = input inp"
        using ss fl by (simp_all add: same_stream_def)
      with stream_inv_nxt[OF i2] i2 p2 show ?thesis by simp
    qed
    from m w show ?thesis by blast
  qed
  have l: "\<forall>t. linear_scan (edges data accEnd n) c = Edge t \<longrightarrow>
            (let inp1 = accept_loop data allows overrides groupMask (st + 3) (Some accEnd) inp;
                 inp2 = snd (advance inp1 1)
             in pos inp < pos inp2 \<and>
                (stream_inv inp \<longrightarrow>
                   stream_inv inp2 \<and>
                   pos inp2 = skip_gaps (end_pos inp) (gap_list inp) (pos inp + 1) \<and>
                   nxt inp2 = (if pos inp2 < end_pos inp
                               then Some (int (doc (input inp) ! nat (pos inp2)))
                               else Some (- 1))))"
    unfolding Let_def using a unfolding inp2_def inp1_def by blast
  from f i r l show ?thesis by blast
qed

theorem readToken_binary_search_witness:
  "table_ok demo_table 3 2 \<and> sorted_edges (edges demo_table 3 2) \<and>
   js_and 1 (rd demo_table (Some 0)) \<noteq> 0 \<and>
   rd demo_table (Some (0 + 1)) = Some 3 \<and> rd demo_table (Some (0 + 2)) = Some (int 2) \<and>
   nxt demo_stream = Some 98 \<and> stream_inv demo_stream \<and>
   findEdge demo_table (Some 3) (Some 98) 0 (int 2) = Edge (Some 9) \<and>
   pos demo_stream = 0 \<and>
   pos (snd (advance (accept_loop demo_table (\<lambda>_. True) (\<lambda>_ _. False) 1 (0 + 3) (Some 3) demo_stream) 1)) = 1 \<and>
   nxt (snd (advance (accept_loop demo_table (\<lambda>_. True) (\<lambda>_ _. False) 1 (0 + 3) (Some 3) demo_stream) 1))
     = Some (- 1)"
proof -
  have h1: "table_ok demo_table 3 2" by (simp add: table_ok_def demo_table_def)
  have h2: "sorted_edges (edges demo_table 3 2)" by code_simp
  have h3: "js_and 1 (rd demo_table (Some 0)) \<noteq> 0" by code_simp
  have h4: "rd demo_table (Some (0 + 1)) = Some 3" by code_simp
  have h5: "rd demo_table (Some (0 + 2)) = Some (int 2)" by code_simp
  have h6: "nxt demo_stream = Some 98" by code_simp
  have h7: "stream_inv demo_stream"
    unfolding demo_stream_def
    by (rule InputStream_new_inv) (simp_all add: wf_gaps_def)
  have l: "linear_scan (edges demo_table 3 2) 98 = Edge (Some 9)" by code_simp
  have p: "pos demo_stream = 0" "end_pos demo_stream = 1"
    "skip_gaps (end_pos demo_stream) (gap_list demo_stream) (pos demo_stream + 1) = 1"
    by code_simp+
  note t = readToken_binary_search_refines_linear_scan
    [where allows = "\<lambda>_. True" and overrides = "\<lambda>_ _. False", OF h1 h2 h3 h4 h5 h6]
  from t l have a: "findEdge demo_table (Some 3) (Some 98) 0 (int 2) = Edge (Some 9)"
    by simp
  let ?inp2 = "snd (advance (accept_loop demo_table (\<lambda>_. True) (\<lambda>_ _. False) 1 (0 + 3) (Some 3) demo_stream) 1)"
  from t l h7 have b: "pos ?inp2 = skip_gaps (end_pos demo_stream) (gap_list demo_stream) (pos demo_stream + 1)"
    and c: "nxt ?inp2 = (if pos ?inp2 < end_pos demo_stream
                         then Some (int (doc (input demo_stream) ! nat (pos ?inp2)))
                         else Some (- 1))"
    unfolding Let_def by blast+
  from b p have b': "pos ?inp2 = 1" by simp
  from c b' p have c': "nxt ?inp2 = Some (- 1)" by simp
  from h1 h2 h3 h4 h5 h6 h7 a p(1) b' c' show ?thesis by blast
qed


section \<open>InputStream: the look-ahead where no gap is crossed\<close>

text \<open>
  \<^verbatim>\<open>peek\<close> records the position it resolves; a step of \<^verbatim>\<open>advance\<close> records the position
  after the one it leaves, before \<^verbatim>\<open>readNext\<close> moves the stream over a gap. The look-ahead
  never decreases, and on a stream without gaps it is the highest position reached.
\<close>

lemma the_token_upd_token: "the_token (upd_token f s) = f (the_token s)"
  by (simp add: the_token_def upd_token_def split: option.splits)

lemma lookAhead_note_lookAhead:
  "lookAhead (the_token (note_lookAhead p s)) = max (lookAhead (the_token s)) p"
  by (simp add: note_lookAhead_def the_token_upd_token)

lemma peek_lookAhead:
  assumes "stream_inv s"
  shows "lookAhead (the_token (snd (peek s k)))
     = max (lookAhead (the_token s)) (resolvePos s (pos s) k)"
proof (cases "0 \<le> chunkOff s + k \<and> chunkOff s + k < int (length (chunk s))")
  case True
  then have "resolvePos s (pos s) k = pos s + k"
    using resolvePos_in_chunk(1)[OF assms] by simp
  with True show ?thesis
    by (simp add: peek_def Let_def lookAhead_note_lookAhead)
next
  case False
  then show ?thesis
    by (auto simp: peek_def Let_def lookAhead_note_lookAhead)
qed

lemma the_token_moved: "moved s s' \<Longrightarrow> the_token s' = the_token s"
  by (auto simp: moved_def the_token_def split: option.splits)

lemma advance_step_lookAhead:
  assumes "stream_inv s" and "\<not> opt_lt (nxt s) 0"
  defines "s' \<equiv> readNext (note_lookAhead (pos s + 1) (s\<lparr>chunkOff := chunkOff s + 1, pos := pos s + 1\<rparr>))"
  shows "lookAhead (the_token s') = max (lookAhead (the_token s)) (pos s + 1)"
    and "\<not> in_gap (gap_list s) (pos s + 1) \<Longrightarrow> pos s' = pos s + 1"
proof -
  let ?m = "note_lookAhead (pos s + 1) (s\<lparr>chunkOff := chunkOff s + 1, pos := pos s + 1\<rparr>)"
  from stream_inv_has_next[OF assms(1,2)]
  have c: "0 \<le> chunkOff s" "chunkOff s < int (length (chunk s))" "pos s = chunkPos s + chunkOff s"
    by simp_all
  have "read_pre ?m"
    using assms(1) c
    by (simp add: read_pre_def fetch_pre_def stream_inv_def config_ok_def chunk_ok_def gap_list_def)
  note r = readNext_inv[OF this]
  from r have "the_token s' = the_token ?m"
    unfolding s'_def by (intro the_token_moved) simp
  moreover have "the_token (s\<lparr>chunkOff := chunkOff s + 1, pos := pos s + 1\<rparr>) = the_token s"
    by (simp add: the_token_def split: option.splits)
  ultimately show "lookAhead (the_token s') = max (lookAhead (the_token s)) (pos s + 1)"
    by (simp add: lookAhead_note_lookAhead)
  have "gap_list ?m = gap_list s" by (simp add: gap_list_def)
  with r show "\<not> in_gap (gap_list s) (pos s + 1) \<Longrightarrow> pos s' = pos s + 1"
    unfolding s'_def by simp
qed

lemma advance_lookAhead_mono:
  "stream_inv s \<Longrightarrow> lookAhead (the_token s) \<le> lookAhead (the_token (snd (advance_loop k s)))"
proof (induction k arbitrary: s)
  case 0
  then show ?case by simp
next
  case (Suc k)
  show ?case
  proof (cases "opt_lt (nxt s) 0")
    case True
    then show ?thesis by simp
  next
    case False
    let ?s' = "readNext (note_lookAhead (pos s + 1) (s\<lparr>chunkOff := chunkOff s + 1, pos := pos s + 1\<rparr>))"
    from advance_step_inv[OF Suc.prems False] have i: "stream_inv ?s'" by simp
    from Suc.IH[OF i] advance_step_lookAhead(1)[OF Suc.prems False] False
    show ?thesis by simp
  qed
qed

lemma advance_lookAhead_no_gaps:
  assumes "stream_inv s" and "gaps s = None" and "pos s \<le> lookAhead (the_token s)"
  shows "lookAhead (the_token (snd (advance_loop k s)))
     = max (lookAhead (the_token s)) (pos (snd (advance_loop k s)))"
  using assms
proof (induction k arbitrary: s)
  case 0
  then show ?case by simp
next
  case (Suc k)
  show ?case
  proof (cases "opt_lt (nxt s) 0")
    case True
    with Suc.prems show ?thesis by simp
  next
    case False
    let ?s' = "readNext (note_lookAhead (pos s + 1) (s\<lparr>chunkOff := chunkOff s + 1, pos := pos s + 1\<rparr>))"
    from advance_step_inv[OF Suc.prems(1) False]
    have i: "stream_inv ?s'" and ss: "same_stream s ?s'" by simp_all
    have g: "gaps ?s' = None" using ss Suc.prems(2) by (simp add: same_stream_def)
    have "\<not> in_gap (gap_list s) (pos s + 1)"
      using Suc.prems(2) by (simp add: gap_list_def)
    from advance_step_lookAhead(2)[OF Suc.prems(1) False this]
    have p: "pos ?s' = pos s + 1" .
    note l = advance_step_lookAhead(1)[OF Suc.prems(1) False]
    have le: "pos ?s' \<le> lookAhead (the_token ?s')" using p l by simp
    from advance_loop_inv[OF i, of k] have "pos ?s' \<le> pos (snd (advance_loop k ?s'))" by simp
    with Suc.IH[OF i g le] l p False show ?thesis by simp
  qed
qed

section \<open>InputStream: the shared null token\<close>

text \<open>
  Two streams that \<^verbatim>\<open>reset\<close> has bound to no token see one token: what \<^verbatim>\<open>peek\<close> on the one
  records is what the other finds. Handing the contents on touches nothing that the
  invariant of a stream, or the comparison of two streams, looks at.
\<close>

lemma shared_token_seen:
  "token s = None \<Longrightarrow> token t = None \<Longrightarrow>
   the_token (share_nullToken (snd (peek s k)) t) = the_token (snd (peek s k))"
  by (simp add: share_nullToken_def the_token_def peek_def Let_def note_lookAhead_def upd_token_def
      split: option.splits)

lemma share_nullToken_stream_inv: "stream_inv (share_nullToken s t) = stream_inv t"
  by (rule stream_inv_fields) (simp_all add: share_nullToken_def)

lemma share_nullToken_same_stream: "same_stream s (share_nullToken x t) = same_stream s t"
  by (simp add: same_stream_def share_nullToken_def)

section \<open>InputStream: peek against reset\<close>










section \<open>InputStream: read\<close>

lemma strip_gaps_append:
  "strip_gaps gs p (xs @ ys) = strip_gaps gs p xs @ strip_gaps gs (p + int (length xs)) ys"
  by (induction xs arbitrary: p) (auto simp: algebra_simps)

lemma strip_gaps_cong:
  "(\<And>q. p \<le> q \<Longrightarrow> q < p + int (length xs) \<Longrightarrow> in_gap gs q = in_gap gs' q) \<Longrightarrow>
   strip_gaps gs p xs = strip_gaps gs' p xs"
proof (induction xs arbitrary: p)
  case Nil
  then show ?case by simp
next
  case (Cons x xs)
  have "in_gap gs p = in_gap gs' p" using Cons.prems[of p] by simp
  moreover have "strip_gaps gs (p + 1) xs = strip_gaps gs' (p + 1) xs"
    by (rule Cons.IH) (use Cons.prems in auto)
  ultimately show ?case by simp
qed

lemma strip_gaps_id:
  "(\<And>q. p \<le> q \<Longrightarrow> q < p + int (length xs) \<Longrightarrow> \<not> in_gap gs q) \<Longrightarrow> strip_gaps gs p xs = xs"
proof (induction xs arbitrary: p)
  case Nil
  then show ?case by simp
next
  case (Cons x xs)
  have "\<not> in_gap gs p" using Cons.prems[of p] by simp
  moreover have "strip_gaps gs (p + 1) xs = xs"
    by (rule Cons.IH) (use Cons.prems in auto)
  ultimately show ?case by simp
qed

lemma strip_gaps_all:
  "(\<And>q. p \<le> q \<Longrightarrow> q < p + int (length xs) \<Longrightarrow> in_gap gs q) \<Longrightarrow> strip_gaps gs p xs = []"
proof (induction xs arbitrary: p)
  case Nil
  then show ?case by simp
next
  case (Cons x xs)
  have "in_gap gs p" using Cons.prems[of p] by simp
  moreover have "strip_gaps gs (p + 1) xs = []"
    by (rule Cons.IH) (use Cons.prems in auto)
  ultimately show ?case by simp
qed

lemma in_gap_snoc:
  "in_gap (gs @ [g]) q = (in_gap gs q \<or> (gap_from g \<le> q \<and> q < gap_to g))"
  by (auto simp: in_gap_def)

lemma wf_gaps_snoc:
  "wf_gaps (gs @ [g]) \<Longrightarrow>
   wf_gaps gs \<and> gap_from g \<le> gap_to g \<and> (\<forall>g' \<in> set gs. gap_to g' \<le> gap_from g)"
  by (auto simp: wf_gaps_def sorted_wrt_append)

lemma read_gaps_strip:
  assumes "wf_gaps gs" and "int (length A) \<le> to' - from'"
    and "B = [] \<or> (\<forall>g \<in> set gs. gap_to g \<le> from' + int (length A))"
  shows "read_gaps (rev gs) from' to' (A @ B) = strip_gaps gs from' A @ B"
  using assms
proof (induction gs arbitrary: A B rule: rev_induct)
  case Nil
  have "strip_gaps [] from' A = A"
    by (rule strip_gaps_id) simp
  then show ?case by simp
next
  case (snoc g gs)
  from wf_gaps_snoc[OF snoc.prems(1)]
  have wf: "wf_gaps gs" and gg: "gap_from g \<le> gap_to g"
    and ge: "\<forall>g' \<in> set gs. gap_to g' \<le> gap_from g"
    by simp_all
  let ?cur = "A @ B"
  have B0: "B = [] \<or> (\<forall>g' \<in> set gs. gap_to g' \<le> from' + int (length A))"
    using snoc.prems(3) by auto
  show ?case
  proof (cases "gap_to g > from' \<and> gap_from g < to'")
    case False
    have r: "read_gaps (rev (gs @ [g])) from' to' ?cur = read_gaps (rev gs) from' to' ?cur"
      using False by auto
    have "strip_gaps (gs @ [g]) from' A = strip_gaps gs from' A"
    proof (rule strip_gaps_cong)
      fix q assume "from' \<le> q" "q < from' + int (length A)"
      with False snoc.prems(2) have "\<not> (gap_from g \<le> q \<and> q < gap_to g)" by auto
      then show "in_gap (gs @ [g]) q = in_gap gs q" by (auto simp: in_gap_snoc)
    qed
    with snoc.IH[OF wf snoc.prems(2) B0] r show ?thesis by simp
  next
    case True
    define a where "a = max 0 (gap_from g - from')"
    define b where "b = min (int (length ?cur)) (gap_to g - from')"
    have a0: "0 \<le> a" "gap_from g - from' \<le> a" "a \<le> gap_to g - from'"
      using True gg by (auto simp: a_def)
    have b0: "0 \<le> b" "b \<le> gap_to g - from'" "b \<le> int (length ?cur)"
      using True by (auto simp: b_def)
    have bA: "b \<le> int (length A)"
    proof (cases "B = []")
      case True
      with b0(3) show ?thesis by simp
    next
      case False
      with snoc.prems(3) have "gap_to g \<le> from' + int (length A)" by simp
      with b0(2) show ?thesis by simp
    qed
    have full: "b < gap_to g - from' \<Longrightarrow> B = [] \<and> nat b = length A"
    proof -
      assume "b < gap_to g - from'"
      then have "b = int (length ?cur)" by (simp add: b_def min_def split: if_splits)
      with bA show "B = [] \<and> nat b = length A" by simp
    qed
    have r: "read_gaps (rev (gs @ [g])) from' to' ?cur
        = read_gaps (rev gs) from' to' (js_slice ?cur 0 a @ js_slice_from ?cur b)"
      using True by (simp add: a_def b_def)
    have s1: "js_slice ?cur 0 a = take (nat a) ?cur"
      using a0(1) by (rule js_slice_take)
    have s2: "js_slice_from ?cur b = drop (nat b) ?cur"
      using b0(1) by (rule js_slice_from_drop)
    have d: "drop (nat b) ?cur = drop (nat b) A @ B"
      using bA b0(1) by simp
    define A' where "A' = take (nat a) A"
    define B' where "B' = drop (nat b) A @ B"
    have tA: "take (nat a) ?cur = A'"
    proof (cases "a \<le> int (length A)")
      case True
      then show ?thesis by (simp add: A'_def)
    next
      case False
      with bA a0(3) have "b < gap_to g - from'" by linarith
      from full[OF this] show ?thesis by (simp add: A'_def)
    qed
    have p2: "int (length A') \<le> to' - from'"
      using snoc.prems(2) by (simp add: A'_def)
    have p3: "B' = [] \<or> (\<forall>g' \<in> set gs. gap_to g' \<le> from' + int (length A'))"
    proof (cases "a \<le> int (length A)")
      case True
      then have "int (length A') = a" using a0(1) by (simp add: A'_def)
      with ge a0(2) show ?thesis by force
    next
      case False
      with bA a0(3) have "b < gap_to g - from'" by linarith
      from full[OF this] show ?thesis by (simp add: B'_def)
    qed
    from snoc.IH[OF wf p2 p3]
    have ih: "read_gaps (rev gs) from' to' (A' @ B') = strip_gaps gs from' A' @ B'" .
    have goal: "strip_gaps (gs @ [g]) from' A = strip_gaps gs from' A' @ drop (nat b) A"
    proof (cases "a \<le> int (length A)")
      case le: True
      have ab: "a \<le> b" using a0(3) le by (simp add: b_def)
      define M where "M = take (nat b - nat a) (drop (nat a) A)"
      have lA': "int (length A') = a" using le a0(1) by (simp add: A'_def)
      have lM: "int (length M) = b - a"
        using ab bA a0(1) by (simp add: M_def)
      have "drop (nat a) A = M @ drop (nat b) A"
      proof -
        have "drop (nat a) A = take (nat b - nat a) (drop (nat a) A) @ drop (nat b - nat a) (drop (nat a) A)"
          by (rule append_take_drop_id [symmetric])
        moreover have "drop (nat b - nat a) (drop (nat a) A) = drop (nat b) A"
          using ab a0(1) by simp
        ultimately show ?thesis by (simp add: M_def)
      qed
      then have split: "A = A' @ M @ drop (nat b) A"
        unfolding A'_def by (metis append_take_drop_id)
      have 1: "strip_gaps (gs @ [g]) from' A' = strip_gaps gs from' A'"
      proof (rule strip_gaps_cong)
        fix q assume q: "from' \<le> q" "q < from' + int (length A')"
        then have "q < gap_from g" using lA' by (auto simp: a_def max_def split: if_splits)
        then show "in_gap (gs @ [g]) q = in_gap gs q" by (auto simp: in_gap_snoc)
      qed
      have 2: "strip_gaps (gs @ [g]) (from' + a) M = []"
      proof (rule strip_gaps_all)
        fix q assume q: "from' + a \<le> q" "q < from' + a + int (length M)"
        then have "gap_from g \<le> q \<and> q < gap_to g" using a0(2) b0(2) lM by simp
        then show "in_gap (gs @ [g]) q" by (auto simp: in_gap_snoc)
      qed
      have 3: "strip_gaps (gs @ [g]) (from' + b) (drop (nat b) A) = drop (nat b) A"
      proof (cases "drop (nat b) A = []")
        case True
        then show ?thesis by simp
      next
        case False
        then have "nat b \<noteq> length A" by auto
        with full have be: "b = gap_to g - from'" using b0(2) by fastforce
        show ?thesis
        proof (rule strip_gaps_id)
          fix q assume q: "from' + b \<le> q"
          then have gq: "gap_to g \<le> q" using be by simp
          have "\<not> in_gap gs q"
            using ge gg gq by (fastforce simp: in_gap_def)
          with gq show "\<not> in_gap (gs @ [g]) q" by (auto simp: in_gap_snoc)
        qed
      qed
      have "strip_gaps (gs @ [g]) from' A = strip_gaps (gs @ [g]) from' (A' @ M @ drop (nat b) A)"
        using split by simp
      also have "\<dots> = strip_gaps (gs @ [g]) from' A' @ strip_gaps (gs @ [g]) (from' + a) M
            @ strip_gaps (gs @ [g]) (from' + b) (drop (nat b) A)"
        using lA' lM by (simp add: strip_gaps_append)
      finally show ?thesis using 1 2 3 by simp
    next
      case False
      with bA a0(3) have "b < gap_to g - from'" by linarith
      from full[OF this] have e: "B = []" "nat b = length A" by simp_all
      have A': "A' = A" using False by (simp add: A'_def)
      have "strip_gaps (gs @ [g]) from' A = strip_gaps gs from' A"
      proof (rule strip_gaps_cong)
        fix q assume q: "from' \<le> q" "q < from' + int (length A)"
        then have "q < gap_from g" using False by (auto simp: a_def max_def split: if_splits)
        then show "in_gap (gs @ [g]) q = in_gap gs q" by (auto simp: in_gap_snoc)
      qed
      with A' e show ?thesis by simp
    qed
    have "read_gaps (rev (gs @ [g])) from' to' ?cur = read_gaps (rev gs) from' to' (A' @ B')"
      unfolding r s1 s2 tA d B'_def ..
    with ih goal show ?thesis by (simp add: B'_def)
  qed
qed

lemma chunk_slice_is_read:
  assumes "stream_inv s" and "0 \<le> from'" and "from' \<le> to'"
    and "from' \<ge> chunkPos s" and "to' \<le> chunkPos s + int (length (chunk s))"
  shows "js_slice (chunk s) (from' - chunkPos s) (to' - chunkPos s) = Input_read (input s) from' to'"
proof -
  let ?c = "chunk s" and ?D = "doc (input s)" and ?cp = "chunkPos s"
  define a where "a = from' - ?cp"
  define b where "b = to' - ?cp"
  have ab: "0 \<le> a" "a \<le> b" "b \<le> int (length ?c)"
    using assms(3,4,5) by (simp_all add: a_def b_def)
  have cp0: "0 \<le> ?cp"
  proof (cases "?c = []")
    case True
    with assms(3,4,5) have "?cp = from'" by simp
    with assms(2) show ?thesis by simp
  next
    case False
    with assms(1) show ?thesis
      by (simp add: stream_inv_def chunk_ok_def config_ok_def)
  qed
  have cont: "?c = take (length ?c) (drop (nat ?cp) ?D)"
  proof (cases "?c = []")
    case True
    then show ?thesis by simp
  next
    case False
    with assms(1) show ?thesis
      by (simp add: stream_inv_def chunk_ok_def)
  qed
  have "js_slice ?c a b = take (nat (b - a)) (drop (nat a) ?c)"
    using ab by (rule js_slice_sub)
  also have "drop (nat a) ?c = take (length ?c - nat a) (drop (nat ?cp + nat a) ?D)"
    using drop_take_doc[OF cont, of "nat a"] ab by simp
  also have "nat ?cp + nat a = nat from'"
    using cp0 ab(1) by (simp add: a_def)
  also have "take (nat (b - a)) (take (length ?c - nat a) (drop (nat from') ?D))
      = take (nat (b - a)) (drop (nat from') ?D)"
  proof -
    have "nat (b - a) \<le> length ?c - nat a" using ab by linarith
    then show ?thesis by (simp add: min_def)
  qed
  also have "nat (b - a) = nat to' - nat from'"
    using assms(2,3) by (simp add: a_def b_def nat_diff_distrib)
  finally show ?thesis
    by (simp add: a_def b_def Input_read_def)
qed


text \<open>
  Claim C7, as amended. For every well-formed stream (the range within the input, the
  gaps sorted and not overlapping) and every \<open>0 \<le> from \<le> to\<close>, \<^verbatim>\<open>read(from, to)\<close> returns
  the text of the input over \<open>[from, to)\<close> with the characters at positions inside a gap
  removed, whether the text comes from the current chunk or from the input.
\<close>

theorem read_strips_gaps:
  assumes "stream_inv s" and "0 \<le> from'" and "from' \<le> to'"
  shows "read s from' to' = strip_gaps (gap_list s) from' (Input_read (input s) from' to')"
proof -
  define val where "val = (if from' \<ge> chunkPos s \<and> to' \<le> chunkPos s + int (length (chunk s))
                 then js_slice (chunk s) (from' - chunkPos s) (to' - chunkPos s)
                 else Input_read (input s) from' to')"
  have v: "val = Input_read (input s) from' to'"
    using chunk_slice_is_read[OF assms] by (simp add: val_def)
  have len: "int (length val) \<le> to' - from'"
    unfolding v using assms(2,3) by (simp add: Input_read_def)
  have wf: "wf_gaps (gap_list s)"
    using assms(1) by (simp add: stream_inv_def config_ok_def)
  have r: "read s from' to' = (case gaps s of None \<Rightarrow> val | Some gs \<Rightarrow> read_gaps (rev gs) from' to' val)"
    unfolding read_def Let_def val_def by (rule refl)
  show ?thesis
  proof (cases "gaps s")
    case None
    have "strip_gaps [] from' val = val" by (rule strip_gaps_id) simp
    with None r v show ?thesis by (simp add: gap_list_def)
  next
    case (Some gs)
    with wf have "wf_gaps gs" by (simp add: gap_list_def)
    from read_gaps_strip[OF this, of val to' from' "[]"] len
    have "read_gaps (rev gs) from' to' val = strip_gaps gs from' val" by simp
    with Some r v show ?thesis by (simp add: gap_list_def)
  qed
qed

theorem read_strips_gaps_witness:
  "stream_inv demo_gap_stream \<and> (0::int) \<le> 1 \<and> (1::int) \<le> 6 \<and>
   Input_read (input demo_gap_stream) 1 6 = [98, 35, 35, 35, 99] \<and>
   read demo_gap_stream 1 6 = [98, 99]"
proof -
  have i: "stream_inv demo_gap_stream"
    unfolding demo_gap_stream_def
    by (rule InputStream_new_inv) (simp_all add: demo_gap_input_def wf_gaps_def)
  have v: "Input_read (input demo_gap_stream) 1 6 = [98, 35, 35, 35, 99]" by code_simp
  have g: "strip_gaps (gap_list demo_gap_stream) 1 [98, 35, 35, 35, 99] = [98, 99]" by code_simp
  from read_strips_gaps [OF i, of 1 6] v g
  have "read demo_gap_stream 1 6 = [98, 99]" by simp
  with i v show ?thesis by simp
qed

text \<open>
  Claim C7 as stated, for every gap configuration, fails when the gaps are not sorted.
  Over \<^verbatim>\<open>abcdefgh\<close> with the gaps \<open>[5, 6)\<close> and \<open>[2, 3)\<close>, \<^verbatim>\<open>read(0, 8)\<close> first removes the
  \<^verbatim>\<open>c\<close> at index 2 and then the character at index 5 of what is left, the \<^verbatim>\<open>g\<close>; the
  character at position 5 of the input is the \<^verbatim>\<open>f\<close>.
\<close>

theorem read_unsorted_gaps_counterexample:
  "read demo_unsorted_stream 0 8 = [97, 98, 100, 101, 102, 104] \<and>
   Input_read (input demo_unsorted_stream) 0 8 = [97, 98, 99, 100, 101, 102, 103, 104] \<and>
   strip_gaps (gap_list demo_unsorted_stream) 0 (Input_read (input demo_unsorted_stream) 0 8)
     = [97, 98, 100, 101, 103, 104] \<and>
   \<not> wf_gaps (gap_list demo_unsorted_stream)"
  by code_simp

end
